theory Spec2Isabelle
  imports Main "HOL-Library.Multiset"
begin

section \<open>Exceptions\<close>

text \<open>
  The Python exceptions the pipeline of \<^verbatim>\<open>xmler.py\<close> can raise. A function that can
  raise returns \<open>error + 'a\<close>, with \<open>Inl\<close> for the exception. The program defines no
  exception class of its own: a document that cannot be parsed is an
  \<open>XMLSyntaxError\<close> of \<^verbatim>\<open>etree.parse\<close>, and a missing entry shows up as the
  \<open>AttributeError\<close> of calling a method on \<^verbatim>\<open>None\<close>.
\<close>

datatype error = ValueError | AttributeError | XMLSyntaxError | FileNotFoundError | KeyError

section \<open>The random source: module \<^verbatim>\<open>secrets\<close>\<close>

text \<open>
  The operating system's random source is an infinite tape of numbers, read from
  position 0; \<open>advance\<close> drops what a call has consumed. Every value the library
  can return is the value of some tape, and nothing is assumed about the tape.

  \<^item> \<^verbatim>\<open>secrets.token_bytes(n)\<close> returns \<open>n\<close> bytes, and raises ValueError for a
    negative \<open>n\<close>;
  \<^item> \<^verbatim>\<open>secrets.randbelow(n)\<close> returns an integer of \<open>[0, n)\<close>, and raises
    ValueError unless \<open>0 < n\<close>;
  \<^item> \<^verbatim>\<open>secrets.token_hex(n)\<close> is \<^verbatim>\<open>binascii.hexlify(token_bytes(n))\<close>;
  \<^item> \<^verbatim>\<open>secrets.token_urlsafe(n)\<close> is
    \<^verbatim>\<open>base64.urlsafe_b64encode(token_bytes(n)).rstrip(b'=')\<close>.
\<close>

type_synonym entropy = "nat \<Rightarrow> nat"

definition advance :: "nat \<Rightarrow> entropy \<Rightarrow> entropy" where
  "advance n s = (\<lambda>i. s (i + n))"

definition token_bytes :: "int \<Rightarrow> entropy \<Rightarrow> error + (nat list \<times> entropy)" where
  "token_bytes nbytes s =
     (if nbytes < 0 then Inl ValueError
      else Inr (map (\<lambda>i. s i mod 256) [0..<nat nbytes], advance (nat nbytes) s))"

definition randbelow :: "int \<Rightarrow> entropy \<Rightarrow> error + (int \<times> entropy)" where
  "randbelow n s =
     (if n \<le> 0 then Inl ValueError else Inr (int (s 0) mod n, advance 1 s))"

definition hex_alphabet :: string where
  "hex_alphabet = ''0123456789abcdef''"

definition hex_digit :: "nat \<Rightarrow> char" where
  "hex_digit n = hex_alphabet ! n"

definition hexlify :: "nat list \<Rightarrow> string" where
  "hexlify bs = concat (map (\<lambda>b. [hex_digit (b div 16), hex_digit (b mod 16)]) bs)"

definition token_hex :: "int \<Rightarrow> entropy \<Rightarrow> error + (string \<times> entropy)" where
  "token_hex nbytes s =
     (case token_bytes nbytes s of
        Inl e \<Rightarrow> Inl e
      | Inr (bs, s') \<Rightarrow> Inr (hexlify bs, s'))"

definition urlsafe_alphabet :: string where
  "urlsafe_alphabet = ''ABCDEFGHIJKLMNOPQRSTUVWXYZabcdefghijklmnopqrstuvwxyz0123456789-_''"

definition b64_char :: "nat \<Rightarrow> char" where
  "b64_char n = urlsafe_alphabet ! n"

fun urlsafe_b64encode :: "nat list \<Rightarrow> string" where
  "urlsafe_b64encode (a # b # c # rest) =
     [b64_char (a div 4), b64_char ((a mod 4) * 16 + b div 16),
      b64_char ((b mod 16) * 4 + c div 64), b64_char (c mod 64)]
     @ urlsafe_b64encode rest"
| "urlsafe_b64encode [a, b] =
     [b64_char (a div 4), b64_char ((a mod 4) * 16 + b div 16),
      b64_char ((b mod 16) * 4), CHR ''='']"
| "urlsafe_b64encode [a] =
     [b64_char (a div 4), b64_char ((a mod 4) * 16), CHR ''='', CHR ''='']"
| "urlsafe_b64encode [] = []"

definition rstrip :: "char \<Rightarrow> string \<Rightarrow> string" where
  "rstrip c s = rev (dropWhile (\<lambda>x. x = c) (rev s))"

definition token_urlsafe :: "int \<Rightarrow> entropy \<Rightarrow> error + (string \<times> entropy)" where
  "token_urlsafe nbytes s =
     (case token_bytes nbytes s of
        Inl e \<Rightarrow> Inl e
      | Inr (bs, s') \<Rightarrow> Inr (rstrip CHR ''='' (urlsafe_b64encode bs), s'))"

section \<open>Python's \<^verbatim>\<open>str\<close> of an integer\<close>

definition digit_char :: "nat \<Rightarrow> char" where
  "digit_char d = ''0123456789'' ! d"

fun str_nat :: "nat \<Rightarrow> string" where
  "str_nat n = (if n < 10 then [digit_char n] else str_nat (n div 10) @ [digit_char (n mod 10)])"

declare str_nat.simps [simp del]

definition str_int :: "int \<Rightarrow> string" where
  "str_int i = (if i < 0 then CHR ''-'' # str_nat (nat (- i)) else str_nat (nat i))"

section \<open>Element trees and their serialisation: \<^verbatim>\<open>lxml.etree\<close>\<close>

text \<open>
  An element has a tag, its attributes in document order and its children. The program
  never sets or reads text, so elements carry none. \<^verbatim>\<open>etree.Element(tag, k=v, ...)\<close>
  is \<open>Element tag [(k, v), ...] []\<close>, and \<^verbatim>\<open>extend\<close> appends children.

  \<open>tostring\<close> is what \<^verbatim>\<open>ElementTree(root).write(io)\<close> writes with its defaults
  (no declaration, ASCII): an element without children as \<^verbatim>\<open><tag a="v"/>\<close>, one with
  children as \<^verbatim>\<open><tag a="v">...</tag>\<close>, and in attribute values the four characters
  \<^verbatim>\<open>& < > "\<close> as entity references. Strings are over printable ASCII: lxml refuses
  control characters when the element is built, and the generator produces none.
\<close>

datatype element = Element (tag: string) (attrib: "(string \<times> string) list") (children: "element list")

definition dquote :: char where
  "dquote = CHR 0x22"

definition escape_attr_char :: "char \<Rightarrow> string" where
  "escape_attr_char c =
     (if c = CHR ''&'' then ''&amp;''
      else if c = CHR ''<'' then ''&lt;''
      else if c = CHR ''>'' then ''&gt;''
      else if c = dquote then ''&quot;''
      else [c])"

definition escape_attr :: "string \<Rightarrow> string" where
  "escape_attr v = concat (map escape_attr_char v)"

definition attr_string :: "string \<times> string \<Rightarrow> string" where
  "attr_string kv = CHR '' '' # fst kv @ CHR ''='' # dquote # escape_attr (snd kv) @ [dquote]"

fun tostring :: "element \<Rightarrow> string" where
  "tostring (Element t a cs) =
     CHR ''<'' # t @ concat (map attr_string a)
     @ (if cs = [] then ''/>''
        else CHR ''>'' # concat (map tostring cs) @ ''</'' @ t @ ''>'')"

section \<open>Parsing documents: \<^verbatim>\<open>etree.parse\<close>\<close>

text \<open>
  \<open>etree_parse\<close> models \<^verbatim>\<open>etree.parse\<close> on the documents that \<open>tostring\<close> writes, which
  are the documents of the archives this program builds: one root element, every
  element \<^verbatim>\<open><tag a="v"/>\<close> or \<^verbatim>\<open><tag a="v">...</tag>\<close>, attribute values in double
  quotes with the five predefined entity references. On these documents it returns the
  tree that was written (\<open>etree_parse_tostring\<close>), as lxml does. It is not a model of
  lxml on other documents: indentation or text between elements, an XML declaration,
  comments, character references, single-quoted values and namespaces are outside of it.
  It answers \<open>XMLSyntaxError\<close> for them, as it does for an empty document, an unclosed
  or mismatched tag, a repeated attribute, a raw \<^verbatim>\<open><\<close> in a value and input after the
  root, so the theorems about what a document is read as are stated on documents that
  \<open>tostring\<close> writes and on the empty document. The lexer cuts the input into tags; \<open>build\<close> assembles them
  with a stack of open elements, whose children are kept in reverse.
\<close>

definition name_start_char :: "char \<Rightarrow> bool" where
  "name_start_char c \<longleftrightarrow>
     c \<in> set ''ABCDEFGHIJKLMNOPQRSTUVWXYZabcdefghijklmnopqrstuvwxyz_:''"

definition name_char :: "char \<Rightarrow> bool" where
  "name_char c \<longleftrightarrow> name_start_char c \<or> c \<in> set ''0123456789-.''"

definition is_name :: "string \<Rightarrow> bool" where
  "is_name s \<longleftrightarrow> (case s of [] \<Rightarrow> False | c # cs \<Rightarrow> name_start_char c \<and> list_all name_char cs)"

definition expect :: "string \<Rightarrow> string \<Rightarrow> string option" where
  "expect p s = (if take (length p) s = p then Some (drop (length p) s) else None)"

fun unescape_attr :: "string \<Rightarrow> string option" where
  "unescape_attr [] = Some []"
| "unescape_attr (c # cs) =
     (if c = CHR ''&'' then
        (if take 4 cs = ''amp;'' then map_option ((#) CHR ''&'') (unescape_attr (drop 4 cs))
         else if take 3 cs = ''lt;'' then map_option ((#) CHR ''<'') (unescape_attr (drop 3 cs))
         else if take 3 cs = ''gt;'' then map_option ((#) CHR ''>'') (unescape_attr (drop 3 cs))
         else if take 5 cs = ''quot;'' then map_option ((#) dquote) (unescape_attr (drop 5 cs))
         else if take 5 cs = ''apos;'' then map_option ((#) CHR 0x27) (unescape_attr (drop 5 cs))
         else None)
      else if c = CHR ''<'' then None
      else map_option ((#) c) (unescape_attr cs))"

definition lex_name :: "string \<Rightarrow> (string \<times> string) option" where
  "lex_name s =
     (let n = takeWhile name_char s
      in if is_name n then Some (n, dropWhile name_char s) else None)"

definition lex_value :: "string \<Rightarrow> (string \<times> string) option" where
  "lex_value s =
     (case dropWhile (\<lambda>c. c \<noteq> dquote) s of
        [] \<Rightarrow> None
      | q # rest \<Rightarrow>
          (case unescape_attr (takeWhile (\<lambda>c. c \<noteq> dquote) s) of
             None \<Rightarrow> None
           | Some v \<Rightarrow> Some (v, rest)))"

definition lex_attr :: "string \<Rightarrow> ((string \<times> string) \<times> string) option" where
  "lex_attr s =
     (case lex_name s of
        None \<Rightarrow> None
      | Some (k, s1) \<Rightarrow>
          (case expect [CHR ''='', dquote] s1 of
             None \<Rightarrow> None
           | Some s2 \<Rightarrow>
               (case lex_value s2 of
                  None \<Rightarrow> None
                | Some (v, s3) \<Rightarrow> Some ((k, v), s3))))"

lemma expect_length: "expect p s = Some r \<Longrightarrow> length r = length s - length p"
  by (auto simp: expect_def split: if_splits)

lemma lex_name_length: "lex_name s = Some (n, r) \<Longrightarrow> length r \<le> length s"
  by (auto simp: lex_name_def Let_def length_dropWhile_le split: if_splits)

lemma lex_value_length: "lex_value s = Some (v, r) \<Longrightarrow> length r < length s"
proof -
  assume a: "lex_value s = Some (v, r)"
  then obtain q where "dropWhile (\<lambda>c. c \<noteq> dquote) s = q # r"
    by (auto simp: lex_value_def split: list.splits option.splits)
  then have "Suc (length r) = length (dropWhile (\<lambda>c. c \<noteq> dquote) s)" by simp
  also have "\<dots> \<le> length s" by (rule length_dropWhile_le)
  finally show ?thesis by simp
qed

lemma lex_attr_length: "lex_attr s = Some (kv, r) \<Longrightarrow> length r < length s"
  by (auto simp: lex_attr_def split: option.splits prod.splits
      dest!: lex_name_length expect_length lex_value_length)

function lex_attrs :: "string \<Rightarrow> ((string \<times> string) list \<times> string) option" where
  "lex_attrs s =
     (case expect '' '' s of
        None \<Rightarrow> Some ([], s)
      | Some s1 \<Rightarrow>
          (case lex_attr s1 of
             None \<Rightarrow> None
           | Some (kv, s2) \<Rightarrow>
               (case lex_attrs s2 of
                  None \<Rightarrow> None
                | Some (kvs, s3) \<Rightarrow> Some (kv # kvs, s3))))"
  by pat_completeness auto
termination
  by (relation "measure length") (auto dest!: expect_length lex_attr_length)

declare lex_attrs.simps [simp del]

lemma lex_attrs_length: "lex_attrs s = Some (kvs, r) \<Longrightarrow> length r \<le> length s"
proof (induction s arbitrary: kvs r rule: lex_attrs.induct)
  case (1 s)
  show ?case
  proof (cases "expect '' '' s")
    case None
    with "1.prems" show ?thesis by (simp add: lex_attrs.simps[of s])
  next
    case (Some s1)
    with "1.prems" obtain kv s2 kvs' where
      a: "lex_attr s1 = Some (kv, s2)" and b: "lex_attrs s2 = Some (kvs', r)"
      by (auto simp: lex_attrs.simps[of s] split: option.splits)
    from "1.IH"[OF Some a refl b] expect_length[OF Some] lex_attr_length[OF a]
    show ?thesis by simp
  qed
qed

datatype token = STag string "(string \<times> string) list" | ETag string | EmptyTag string "(string \<times> string) list"

definition lex_tag :: "string \<Rightarrow> (token \<times> string) option" where
  "lex_tag s =
     (case expect ''</'' s of
        Some s1 \<Rightarrow>
          (case lex_name s1 of
             None \<Rightarrow> None
           | Some (t, s2) \<Rightarrow>
               (case expect ''>'' s2 of
                  None \<Rightarrow> None
                | Some s3 \<Rightarrow> Some (ETag t, s3)))
      | None \<Rightarrow>
          (case expect ''<'' s of
             None \<Rightarrow> None
           | Some s1 \<Rightarrow>
               (case lex_name s1 of
                  None \<Rightarrow> None
                | Some (t, s2) \<Rightarrow>
                    (case lex_attrs s2 of
                       None \<Rightarrow> None
                     | Some (a, s3) \<Rightarrow>
                         (if \<not> distinct (map fst a) then None
                          else (case expect ''/>'' s3 of
                                  Some s4 \<Rightarrow> Some (EmptyTag t a, s4)
                                | None \<Rightarrow>
                                    (case expect ''>'' s3 of
                                       Some s4 \<Rightarrow> Some (STag t a, s4)
                                     | None \<Rightarrow> None)))))))"

lemma expect_nonempty: "expect p s = Some r \<Longrightarrow> p \<noteq> [] \<Longrightarrow> length r < length s"
  by (cases p; cases s) (auto simp: expect_def split: if_splits)

lemma lex_tag_length: "lex_tag s = Some (t, r) \<Longrightarrow> length r < length s"
  unfolding lex_tag_def
  by (auto split: option.splits prod.splits if_splits
      dest!: lex_name_length lex_attrs_length expect_nonempty)

function tokenize :: "string \<Rightarrow> token list option" where
  "tokenize s =
     (if s = [] then Some []
      else (case lex_tag s of
              None \<Rightarrow> None
            | Some (t, r) \<Rightarrow> map_option ((#) t) (tokenize r)))"
  by pat_completeness auto
termination
  by (relation "measure length") (auto dest!: lex_tag_length)

declare tokenize.simps [simp del]

type_synonym frame = "string \<times> (string \<times> string) list \<times> element list"

fun push_child :: "element \<Rightarrow> frame list \<Rightarrow> frame list + element" where
  "push_child e [] = Inr e"
| "push_child e ((t, a, cs) # st) = Inl ((t, a, e # cs) # st)"

fun build :: "frame list \<Rightarrow> token list \<Rightarrow> element option" where
  "build st [] = None"
| "build st (STag t a # ts) = build ((t, a, []) # st) ts"
| "build st (EmptyTag t a # ts) =
     (case push_child (Element t a []) st of
        Inr e \<Rightarrow> (if ts = [] then Some e else None)
      | Inl st' \<Rightarrow> build st' ts)"
| "build [] (ETag t # ts) = None"
| "build ((t', a, cs) # st) (ETag t # ts) =
     (if t \<noteq> t' then None
      else (case push_child (Element t' a (rev cs)) st of
              Inr e \<Rightarrow> (if ts = [] then Some e else None)
            | Inl st' \<Rightarrow> build st' ts))"

definition etree_parse :: "string \<Rightarrow> error + element" where
  "etree_parse s =
     (case tokenize s of
        None \<Rightarrow> Inl XMLSyntaxError
      | Some ts \<Rightarrow>
          (case build [] ts of
             None \<Rightarrow> Inl XMLSyntaxError
           | Some e \<Rightarrow> Inr e))"

section \<open>Class \<^verbatim>\<open>LXML\<close>: generating documents\<close>

record LXML =
  xml_count :: int
  token_length :: int
  level_max :: int
  name_length :: int
  objects_max :: int

text \<open>
  The list comprehension of lines 50 to 55: \<open>k\<close> elements \<^verbatim>\<open>object\<close>, each with a
  fresh \<^verbatim>\<open>token_urlsafe(name_length)\<close> as its name.
\<close>

fun object_elements :: "nat \<Rightarrow> int \<Rightarrow> entropy \<Rightarrow> error + (element list \<times> entropy)" where
  "object_elements 0 len s = Inr ([], s)"
| "object_elements (Suc k) len s =
     (case token_urlsafe len s of
        Inl e \<Rightarrow> Inl e
      | Inr (n, s1) \<Rightarrow>
          (case object_elements k len s1 of
             Inl e \<Rightarrow> Inl e
           | Inr (objs, s2) \<Rightarrow> Inr (Element ''object'' [(''name'', n)] [] # objs, s2)))"

text \<open>
  The body of the loop of \<^verbatim>\<open>LXML.generate\<close> (lines 47 to 74), in Python's order of
  evaluation: the number of objects, their names, the id, the level; then the tree
  and its serialisation.
\<close>

definition generate_document :: "LXML \<Rightarrow> entropy \<Rightarrow> error + (string \<times> entropy)" where
  "generate_document self s =
     (case randbelow (objects_max self) s of
        Inl e \<Rightarrow> Inl e
      | Inr (n, s1) \<Rightarrow>
     (case object_elements (nat (n + 1)) (name_length self) s1 of
        Inl e \<Rightarrow> Inl e
      | Inr (objs, s2) \<Rightarrow>
     (case token_hex (token_length self) s2 of
        Inl e \<Rightarrow> Inl e
      | Inr (tid, s3) \<Rightarrow>
     (case randbelow (level_max self) s3 of
        Inl e \<Rightarrow> Inl e
      | Inr (lv, s4) \<Rightarrow>
          (let objects = Element ''objects'' [] objs;
               root = Element ''root'' []
                 [Element ''var'' [(''name'', ''id''), (''value'', tid)] [],
                  Element ''var'' [(''name'', ''level''), (''value'', str_int (lv + 1))] [],
                  objects]
           in Inr (tostring root, s4))))))"

fun generate_loop :: "LXML \<Rightarrow> nat \<Rightarrow> entropy \<Rightarrow> error + (string list \<times> entropy)" where
  "generate_loop self 0 s = Inr ([], s)"
| "generate_loop self (Suc k) s =
     (case generate_document self s of
        Inl e \<Rightarrow> Inl e
      | Inr (d, s1) \<Rightarrow>
          (case generate_loop self k s1 of
             Inl e \<Rightarrow> Inl e
           | Inr (ds, s2) \<Rightarrow> Inr (d # ds, s2)))"

text \<open>\<^verbatim>\<open>range(self.xml_count)\<close> is empty for a negative count.\<close>

definition LXML_generate :: "LXML \<Rightarrow> entropy \<Rightarrow> error + (string list \<times> entropy)" where
  "LXML_generate self s = generate_loop self (nat (xml_count self)) s"

section \<open>Records, as the specification names them\<close>

text \<open>
  The program has no record type: a record is the three values that one iteration of
  \<^verbatim>\<open>LXML.generate\<close> draws and builds into a tree. \<open>draw_record\<close> draws them in the
  order of the source, \<open>encode\<close> is the tree of lines 47 to 69, and
  \<open>generate_document_draw\<close> below shows that the body of the loop is exactly the
  serialisation of \<open>encode\<close> of the record drawn.
\<close>

record srecord =
  rec_id :: string
  rec_level :: int
  rec_objects :: "string list"

definition encode :: "srecord \<Rightarrow> element" where
  "encode r =
     Element ''root'' []
       [Element ''var'' [(''name'', ''id''), (''value'', rec_id r)] [],
        Element ''var'' [(''name'', ''level''), (''value'', str_int (rec_level r))] [],
        Element ''objects'' [] (map (\<lambda>n. Element ''object'' [(''name'', n)] []) (rec_objects r))]"

fun draw_names :: "nat \<Rightarrow> int \<Rightarrow> entropy \<Rightarrow> error + (string list \<times> entropy)" where
  "draw_names 0 len s = Inr ([], s)"
| "draw_names (Suc k) len s =
     (case token_urlsafe len s of
        Inl e \<Rightarrow> Inl e
      | Inr (n, s1) \<Rightarrow>
          (case draw_names k len s1 of
             Inl e \<Rightarrow> Inl e
           | Inr (ns, s2) \<Rightarrow> Inr (n # ns, s2)))"

definition draw_record :: "LXML \<Rightarrow> entropy \<Rightarrow> error + (srecord \<times> entropy)" where
  "draw_record self s =
     (case randbelow (objects_max self) s of
        Inl e \<Rightarrow> Inl e
      | Inr (n, s1) \<Rightarrow>
     (case draw_names (nat (n + 1)) (name_length self) s1 of
        Inl e \<Rightarrow> Inl e
      | Inr (ns, s2) \<Rightarrow>
     (case token_hex (token_length self) s2 of
        Inl e \<Rightarrow> Inl e
      | Inr (tid, s3) \<Rightarrow>
     (case randbelow (level_max self) s3 of
        Inl e \<Rightarrow> Inl e
      | Inr (lv, s4) \<Rightarrow>
          Inr (\<lparr>rec_id = tid, rec_level = lv + 1, rec_objects = ns\<rparr>, s4)))))"

fun draw_records :: "LXML \<Rightarrow> nat \<Rightarrow> entropy \<Rightarrow> error + (srecord list \<times> entropy)" where
  "draw_records self 0 s = Inr ([], s)"
| "draw_records self (Suc k) s =
     (case draw_record self s of
        Inl e \<Rightarrow> Inl e
      | Inr (r, s1) \<Rightarrow>
          (case draw_records self k s1 of
             Inl e \<Rightarrow> Inl e
           | Inr (rs, s2) \<Rightarrow> Inr (r # rs, s2)))"

text \<open>
  The configurations for which the random source never raises: \<^verbatim>\<open>randbelow\<close> needs a
  positive bound and \<^verbatim>\<open>token_bytes\<close> a length that is not negative.
\<close>

definition valid_config :: "LXML \<Rightarrow> bool" where
  "valid_config c \<longleftrightarrow>
     0 \<le> token_length c \<and> 0 < level_max c \<and> 0 \<le> name_length c \<and> 0 < objects_max c"

section \<open>Class \<^verbatim>\<open>LXML\<close>: reading a document\<close>

text \<open>
  The queries of \<^verbatim>\<open>LXML.read\<close> (lines 76 to 86), as lxml defines them:
  \<^item> \<^verbatim>\<open>e.iter(tag)\<close>: the elements of the subtree of \<open>e\<close>, \<open>e\<close> included, with that tag,
    in document order;
  \<^item> \<^verbatim>\<open>e.get(key)\<close>: the value of the attribute, or \<^verbatim>\<open>None\<close>;
  \<^item> \<^verbatim>\<open>root.find(".//tag[@key='value']")\<close>: the first descendant of the root (the root
    excluded) with that tag whose attribute \<open>key\<close> has that value, or \<^verbatim>\<open>None\<close>;
  \<^item> \<^verbatim>\<open>root.find("tag")\<close>: the first child of the root with that tag, or \<^verbatim>\<open>None\<close>.
\<close>

fun iter_all :: "element \<Rightarrow> element list" where
  "iter_all (Element t a cs) = Element t a cs # concat (map iter_all cs)"

definition element_iter :: "string \<Rightarrow> element \<Rightarrow> element list" where
  "element_iter t e = filter (\<lambda>x. tag x = t) (iter_all e)"

definition element_get :: "element \<Rightarrow> string \<Rightarrow> string option" where
  "element_get e key = map_of (attrib e) key"

definition find_descendant :: "string \<Rightarrow> string \<Rightarrow> string \<Rightarrow> element \<Rightarrow> element option" where
  "find_descendant t key v root =
     List.find (\<lambda>x. tag x = t \<and> element_get x key = Some v)
       (concat (map iter_all (children root)))"

definition find_child :: "string \<Rightarrow> element \<Rightarrow> element option" where
  "find_child t root = List.find (\<lambda>x. tag x = t) (children root)"

text \<open>
  The dictionary that \<^verbatim>\<open>LXML.read\<close> returns. A value is \<^verbatim>\<open>None\<close> when the attribute
  is missing: \<^verbatim>\<open>get\<close> does not raise.
\<close>

record rdict =
  dict_id :: "string option"
  dict_level :: "string option"
  dict_object_names :: "string option list"

text \<open>
  \<^verbatim>\<open>LXML.read\<close>. The three lookups never raise; calling \<^verbatim>\<open>get\<close> or \<^verbatim>\<open>iter\<close> on a
  \<^verbatim>\<open>None\<close> raises AttributeError, in the order id, level, objects.
\<close>

definition LXML_read :: "string \<Rightarrow> error + rdict" where
  "LXML_read file =
     (case etree_parse file of
        Inl e \<Rightarrow> Inl e
      | Inr root \<Rightarrow>
          (let id_var = find_descendant ''var'' ''name'' ''id'' root;
               level = find_descendant ''var'' ''name'' ''level'' root;
               objects = find_child ''objects'' root
           in case id_var of
                None \<Rightarrow> Inl AttributeError
              | Some i \<Rightarrow>
                  (case level of
                     None \<Rightarrow> Inl AttributeError
                   | Some l \<Rightarrow>
                       (case objects of
                          None \<Rightarrow> Inl AttributeError
                        | Some os \<Rightarrow>
                            Inr \<lparr>dict_id = element_get i ''value'',
                                 dict_level = element_get l ''value'',
                                 dict_object_names =
                                   map (\<lambda>obj. element_get obj ''name'')
                                     (element_iter ''object'' os)\<rparr>))))"

text \<open>The dictionary a record is expected to be read back as.\<close>

definition record_dict :: "srecord \<Rightarrow> rdict" where
  "record_dict r =
     \<lparr>dict_id = Some (rec_id r), dict_level = Some (str_int (rec_level r)),
      dict_object_names = map Some (rec_objects r)\<rparr>"





section \<open>The worker pool: \<^verbatim>\<open>multiprocessing.Pool.map\<close>\<close>

text \<open>
  \<^verbatim>\<open>Pool.map(f, xs)\<close> runs one task per element and returns the results in the order of
  \<open>xs\<close>. The order in which the workers run and finish the tasks is not determined: it
  is the parameter \<open>sched\<close>, which picks at every step one of the tasks still pending.
  Every function \<open>sched\<close> is a schedule, and every order of the tasks is the order of
  some schedule. A task runs in one piece, on the state it finds (the file system and the
  random source): the tasks of this program write different files. \<open>run_pool\<close> collects
  the results with their indices in the order of completion, and \<open>Pool_map\<close> returns them
  sorted by index. A task that raises makes the whole call raise.
\<close>

definition pick :: "(nat \<Rightarrow> nat) \<Rightarrow> 'a list \<Rightarrow> nat" where
  "pick sched pending = sched (length pending) mod length pending"

definition remove_nth :: "nat \<Rightarrow> 'a list \<Rightarrow> 'a list" where
  "remove_nth k xs = take k xs @ drop (Suc k) xs"

lemma length_remove_nth: "k < length xs \<Longrightarrow> length (remove_nth k xs) < length xs"
  by (simp add: remove_nth_def)

lemma pick_less: "pending \<noteq> [] \<Longrightarrow> pick sched pending < length pending"
  by (simp add: pick_def)

function run_pool ::
  "('a \<Rightarrow> 's \<Rightarrow> error + ('b \<times> 's)) \<Rightarrow> (nat \<times> 'a) list \<Rightarrow> (nat \<Rightarrow> nat) \<Rightarrow> 's
     \<Rightarrow> error + ((nat \<times> 'b) list \<times> 's)" where
  "run_pool f pending sched s =
     (if pending = [] then Inr ([], s)
      else (case f (snd (pending ! pick sched pending)) s of
              Inl e \<Rightarrow> Inl e
            | Inr (y, s1) \<Rightarrow>
                (case run_pool f (remove_nth (pick sched pending) pending) sched s1 of
                   Inl e \<Rightarrow> Inl e
                 | Inr (finished, s2) \<Rightarrow>
                     Inr ((fst (pending ! pick sched pending), y) # finished, s2))))"
  by pat_completeness auto
termination
  by (relation "measure (\<lambda>(f, pending, sched, s). length pending)")
    (auto intro!: length_remove_nth pick_less)

declare run_pool.simps [simp del]

definition Pool_map ::
  "('a \<Rightarrow> 's \<Rightarrow> error + ('b \<times> 's)) \<Rightarrow> 'a list \<Rightarrow> (nat \<Rightarrow> nat) \<Rightarrow> 's \<Rightarrow> error + ('b list \<times> 's)" where
  "Pool_map f xs sched s =
     (case run_pool f (enumerate 0 xs) sched s of
        Inl e \<Rightarrow> Inl e
      | Inr (finished, s') \<Rightarrow> Inr (map snd (sort_key fst finished), s'))"

section \<open>Class \<^verbatim>\<open>Zip\<close>\<close>

text \<open>
  An archive is the list of its members, name and data, in the order of its directory,
  which is the order they were written in. \<^verbatim>\<open>namelist\<close> returns the names in that
  order; \<^verbatim>\<open>open(name)\<close> reads the member written last under that name. The file system
  maps a file name to the archive stored there. The world is the file system and the
  random source. When a function raises, the run ends: the model returns the exception
  and no world.
\<close>

type_synonym archive = "(string \<times> string) list"

type_synonym filesystem = "string \<rightharpoonup> archive"

record world =
  fs :: filesystem
  rng :: entropy

record Zip =
  xml :: LXML
  generated_files :: "string list"
  loaded_data :: "rdict list list"

definition writestr :: "archive \<Rightarrow> string \<Rightarrow> string \<Rightarrow> archive" where
  "writestr zf name data = zf @ [(name, data)]"

definition namelist :: "archive \<Rightarrow> string list" where
  "namelist zf = map fst zf"

definition zip_open :: "archive \<Rightarrow> string \<Rightarrow> string option" where
  "zip_open zf name = map_of (rev zf) name"

text \<open>
  The loop of \<^verbatim>\<open>Zip.create\<close> (lines 127 and 128): \<^verbatim>\<open>enumerate\<close> counts from 0, and
  the member \<open>i\<close> is named \<^verbatim>\<open>f"{i}.xml"\<close>.
\<close>

fun write_members :: "nat \<Rightarrow> string list \<Rightarrow> archive \<Rightarrow> archive" where
  "write_members i [] zf = zf"
| "write_members i (xml_data # rest) zf =
     write_members (Suc i) rest (writestr zf (str_int (int i) @ ''.xml'') xml_data)"

text \<open>
  \<^verbatim>\<open>Zip.create\<close>: mode \<^verbatim>\<open>"w"\<close> creates the archive or replaces the one of that name.
\<close>

definition Zip_create :: "Zip \<Rightarrow> int \<Rightarrow> world \<Rightarrow> error + (string \<times> world)" where
  "Zip_create self prefix w =
     (let zip_name = str_int prefix @ ''.zip''
      in case LXML_generate (xml self) (rng w) of
           Inl e \<Rightarrow> Inl e
         | Inr (docs, s') \<Rightarrow>
             Inr (zip_name, \<lparr>fs = (fs w)(zip_name \<mapsto> write_members 0 docs []), rng = s'\<rparr>))"

text \<open>
  \<^verbatim>\<open>Zip.generate_files\<close>: \<^verbatim>\<open>range(count)\<close> is empty for a negative count. The list is
  assigned only when \<^verbatim>\<open>map\<close> returns.
\<close>

definition Zip_generate_files ::
  "Zip \<Rightarrow> int \<Rightarrow> (nat \<Rightarrow> nat) \<Rightarrow> world \<Rightarrow> error + (Zip \<times> world)" where
  "Zip_generate_files self cnt sched w =
     (case Pool_map (Zip_create self) (map int [0..<nat cnt]) sched w of
        Inl e \<Rightarrow> Inl e
      | Inr (names, w') \<Rightarrow> Inr (self\<lparr>generated_files := names\<rparr>, w'))"

text \<open>
  \<^verbatim>\<open>Zip.read\<close>: every member of the archive, in the order of \<^verbatim>\<open>namelist\<close>, read by
  \<^verbatim>\<open>LXML.read\<close>. A missing file raises FileNotFoundError; an exception of a member
  ends the loop.
\<close>

fun read_members :: "archive \<Rightarrow> string list \<Rightarrow> error + rdict list" where
  "read_members zf [] = Inr []"
| "read_members zf (filename # rest) =
     (case zip_open zf filename of
        None \<Rightarrow> Inl KeyError
      | Some f \<Rightarrow>
          (case LXML_read f of
             Inl e \<Rightarrow> Inl e
           | Inr d \<Rightarrow>
               (case read_members zf rest of
                  Inl e \<Rightarrow> Inl e
                | Inr res \<Rightarrow> Inr (d # res))))"

definition Zip_read :: "Zip \<Rightarrow> filesystem \<Rightarrow> string \<Rightarrow> error + rdict list" where
  "Zip_read self files zip_file =
     (case files zip_file of
        None \<Rightarrow> Inl FileNotFoundError
      | Some zf \<Rightarrow> read_members zf (namelist zf))"

text \<open>
  \<^verbatim>\<open>Zip.read_generated\<close> appends to \<^verbatim>\<open>loaded_data\<close> in place, one batch per file name.
  When a read raises, the batches appended so far stay: the result is the object as the
  call leaves it, and the exception if there was one.
\<close>

fun read_generated_loop :: "Zip \<Rightarrow> filesystem \<Rightarrow> string list \<Rightarrow> Zip \<times> error option" where
  "read_generated_loop self files [] = (self, None)"
| "read_generated_loop self files (filename # rest) =
     (case Zip_read self files filename of
        Inl e \<Rightarrow> (self, Some e)
      | Inr batch \<Rightarrow>
          read_generated_loop (self\<lparr>loaded_data := loaded_data self @ [batch]\<rparr>) files rest)"

definition Zip_read_generated :: "Zip \<Rightarrow> filesystem \<Rightarrow> Zip \<times> error option" where
  "Zip_read_generated self files = read_generated_loop self files (generated_files self)"

section \<open>Class \<^verbatim>\<open>CSV\<close>\<close>

text \<open>
  A \<^verbatim>\<open>pandas.DataFrame\<close>: the column names, the index labels of the rows, and the rows.
  A cell holds a string or \<^verbatim>\<open>None\<close>.
  \<^item> \<^verbatim>\<open>DataFrame.from_dict({"id": [], "level": []})\<close> is the empty frame with these
    columns;
  \<^item> \<^verbatim>\<open>df.loc[label] = row\<close> replaces the rows labelled \<open>label\<close>, and appends a row
    with that label when there is none;
  \<^item> \<^verbatim>\<open>pandas.concat(frames)\<close> appends the rows of the frames, labels kept, and raises
    ValueError (\<^verbatim>\<open>No objects to concatenate\<close>) for an empty list. The frames of this
    program have the same columns.
\<close>

record DataFrame =
  columns :: "string list"
  index :: "nat list"
  rows :: "string option list list"

definition DataFrame_empty :: "string list \<Rightarrow> DataFrame" where
  "DataFrame_empty cols = \<lparr>columns = cols, index = [], rows = []\<rparr>"

definition len_df :: "DataFrame \<Rightarrow> nat" where
  "len_df df = length (rows df)"

definition loc_set :: "DataFrame \<Rightarrow> nat \<Rightarrow> string option list \<Rightarrow> DataFrame" where
  "loc_set df label row =
     (if label \<in> set (index df)
      then df\<lparr>rows := map (\<lambda>(l, r). if l = label then row else r) (zip (index df) (rows df))\<rparr>
      else df\<lparr>index := index df @ [label], rows := rows df @ [row]\<rparr>)"

definition pandas_concat :: "DataFrame list \<Rightarrow> error + DataFrame" where
  "pandas_concat frames =
     (case frames of
        [] \<Rightarrow> Inl ValueError
      | d # _ \<Rightarrow>
          Inr \<lparr>columns = columns d, index = concat (map index frames),
               rows = concat (map rows frames)\<rparr>)"

text \<open>\<^verbatim>\<open>CSV.parse_level\<close> (lines 90 to 95): one row per element.\<close>

definition CSV_parse_level :: "rdict list \<Rightarrow> DataFrame" where
  "CSV_parse_level data =
     foldl (\<lambda>df element. loc_set df (len_df df) [dict_id element, dict_level element])
       (DataFrame_empty [''id'', ''level'']) data"

text \<open>\<^verbatim>\<open>CSV.parse_objects\<close> (lines 97 to 103): one row per object name of each element.\<close>

definition CSV_parse_objects :: "rdict list \<Rightarrow> DataFrame" where
  "CSV_parse_objects data =
     foldl (\<lambda>df element.
         foldl (\<lambda>df obj_name. loc_set df (len_df df) [dict_id element, obj_name])
           df (dict_object_names element))
       (DataFrame_empty [''id'', ''object_name'']) data"

text \<open>
  \<^verbatim>\<open>CSV.write\<close> (lines 105 to 113). The tasks of the two \<^verbatim>\<open>map\<close> calls only compute:
  their state is \<open>()\<close>. The result is the pair of frames that \<^verbatim>\<open>to_csv\<close> writes to
  \<^verbatim>\<open>levels.csv\<close> and \<^verbatim>\<open>objects.csv\<close>, a header and one line per row
  (\<^verbatim>\<open>index=False\<close>).
\<close>

definition CSV_write ::
  "(nat \<Rightarrow> nat) \<Rightarrow> (nat \<Rightarrow> nat) \<Rightarrow> rdict list list \<Rightarrow> error + (DataFrame \<times> DataFrame)" where
  "CSV_write sched1 sched2 data =
     (case Pool_map (\<lambda>batch u. Inr (CSV_parse_level batch, u)) data sched1 () of
        Inl e \<Rightarrow> Inl e
      | Inr (frames1, u1) \<Rightarrow>
     (case pandas_concat frames1 of
        Inl e \<Rightarrow> Inl e
      | Inr df1 \<Rightarrow>
     (case Pool_map (\<lambda>batch u. Inr (CSV_parse_objects batch, u)) data sched2 () of
        Inl e \<Rightarrow> Inl e
      | Inr (frames2, u2) \<Rightarrow>
     (case pandas_concat frames2 of
        Inl e \<Rightarrow> Inl e
      | Inr df2 \<Rightarrow> Inr (df1, df2)))))"

text \<open>
  The rows a record contributes: one to the table of levels, one per object to the table
  of objects.
\<close>

definition level_row :: "rdict \<Rightarrow> string option list" where
  "level_row element = [dict_id element, dict_level element]"

definition object_rows :: "rdict \<Rightarrow> string option list list" where
  "object_rows element = map (\<lambda>obj_name. [dict_id element, obj_name]) (dict_object_names element)"

section \<open>Concrete inputs for the examples\<close>

text \<open>
  A small configuration and a tape, used to run the definitions on concrete inputs.
  With \<open>tape0\<close> the first record of \<open>cfg1\<close> draws \<open>11 mod 10 = 1\<close>, so two objects.
\<close>

definition cfg1 :: LXML where
  "cfg1 = \<lparr>xml_count = 1, token_length = 2, level_max = 100, name_length = 3, objects_max = 10\<rparr>"

definition tape0 :: entropy where
  "tape0 = (\<lambda>i. 37 * i + 11)"

definition rec1 :: srecord where
  "rec1 = \<lparr>rec_id = ''0e33'', rec_level = 45, rec_objects = [''MFV6'', ''n8Tp'']\<rparr>"





text \<open>A \<^verbatim>\<open>Zip\<close> object as \<^verbatim>\<open>__init__\<close> leaves it, and a world with no files.\<close>

definition zip1 :: Zip where
  "zip1 = \<lparr>xml = cfg1, generated_files = [], loaded_data = []\<rparr>"

definition world0 :: world where
  "world0 = \<lparr>fs = Map.empty, rng = tape0\<rparr>"

text \<open>
  A schedule that always runs the last pending task first.
\<close>

definition sched_last_first :: "nat \<Rightarrow> nat" where
  "sched_last_first k = k - 1"

text \<open>
  A second record, a file system with two archives, of one and of two documents, and two
  \<^verbatim>\<open>Zip\<close> objects with one (empty) batch loaded: \<open>zip3\<close> names the two archives,
  \<open>zip4\<close> names between them an archive that does not exist.
\<close>

definition rec2 :: srecord where
  "rec2 = \<lparr>rec_id = ''80a5'', rec_level = 15, rec_objects = [''osfs'']\<rparr>"

definition files2 :: filesystem where
  "files2 = [''0.zip'' \<mapsto> [(''0.xml'', tostring (encode rec1))],
             ''1.zip'' \<mapsto> [(''0.xml'', tostring (encode rec2)), (''1.xml'', tostring (encode rec1))]]"

definition zip3 :: Zip where
  "zip3 = \<lparr>xml = cfg1, generated_files = [''0.zip'', ''1.zip''], loaded_data = [[]]\<rparr>"

definition zip4 :: Zip where
  "zip4 = \<lparr>xml = cfg1, generated_files = [''0.zip'', ''2.zip'', ''1.zip''], loaded_data = [[]]\<rparr>"

text \<open>
  Two batches of one record each, the first record with two objects and the second with
  one, and the schedule that always runs the first pending task.
\<close>

definition dict2 :: rdict where
  "dict2 = \<lparr>dict_id = Some ''80a5'', dict_level = Some ''15'', dict_object_names = [Some ''osfs'']\<rparr>"

definition data2 :: "rdict list list" where
  "data2 = [[record_dict rec1], [dict2]]"

definition sched_first :: "nat \<Rightarrow> nat" where
  "sched_first k = 0"

section \<open>The generator and the records it draws\<close>

lemma object_elements_draw:
  "object_elements k len s =
     (case draw_names k len s of
        Inl e \<Rightarrow> Inl e
      | Inr (ns, s') \<Rightarrow> Inr (map (\<lambda>n. Element ''object'' [(''name'', n)] []) ns, s'))"
  by (induction k arbitrary: s) (auto split: sum.splits)

lemma generate_document_draw:
  "generate_document self s =
     (case draw_record self s of
        Inl e \<Rightarrow> Inl e
      | Inr (r, s') \<Rightarrow> Inr (tostring (encode r), s'))"
  unfolding generate_document_def draw_record_def object_elements_draw encode_def Let_def
  by (simp split: sum.splits prod.splits del: tostring.simps)

lemma generate_loop_draw:
  "generate_loop self k s =
     (case draw_records self k s of
        Inl e \<Rightarrow> Inl e
      | Inr (rs, s') \<Rightarrow> Inr (map (\<lambda>r. tostring (encode r)) rs, s'))"
  by (induction k arbitrary: s)
    (auto simp: generate_document_draw split: sum.splits simp del: tostring.simps)

lemma advance_advance: "advance a (advance b s) = advance (a + b) s"
  by (simp add: advance_def add.assoc)

section \<open>What the random source returns\<close>

lemma randbelow_Inr:
  "randbelow n s = Inr (r, s') \<Longrightarrow> 0 < n \<and> 0 \<le> r \<and> r < n \<and> s' = advance 1 s"
  by (auto simp: randbelow_def split: if_splits)

lemma token_bytes_Inr:
  "token_bytes n s = Inr (bs, s') \<Longrightarrow>
     0 \<le> n \<and> length bs = nat n \<and> (\<forall>b\<in>set bs. b < 256) \<and> s' = advance (nat n) s"
  by (auto simp: token_bytes_def split: if_splits)

lemma length_hexlify: "length (hexlify bs) = 2 * length bs"
  by (induction bs) (auto simp: hexlify_def)

lemma hex_digit_mem: "n < 16 \<Longrightarrow> hex_digit n \<in> set hex_alphabet"
  unfolding hex_digit_def by (rule nth_mem) (simp add: hex_alphabet_def)

lemma set_hexlify:
  "\<forall>b\<in>set bs. b < 256 \<Longrightarrow> set (hexlify bs) \<subseteq> set hex_alphabet"
proof (induction bs)
  case Nil
  then show ?case by (simp add: hexlify_def)
next
  case (Cons b bs)
  have "b div 16 < 16" "b mod 16 < 16" using Cons.prems by auto
  then have "hex_digit (b div 16) \<in> set hex_alphabet"
    "hex_digit (b mod 16) \<in> set hex_alphabet"
    by (auto intro: hex_digit_mem)
  moreover have "set (hexlify bs) \<subseteq> set hex_alphabet"
    using Cons by simp
  ultimately show ?case unfolding hexlify_def by simp
qed


lemma b64_char_mem: "n < 64 \<Longrightarrow> b64_char n \<in> set urlsafe_alphabet"
  unfolding b64_char_def by (rule nth_mem) (simp add: urlsafe_alphabet_def)

lemma eq_notin_alphabet: "CHR ''='' \<notin> set urlsafe_alphabet"
  by (simp add: urlsafe_alphabet_def)

lemma rstrip_padding:
  "c \<notin> set body \<Longrightarrow> rstrip c (body @ replicate k c) = body"
proof -
  assume a: "c \<notin> set body"
  have "dropWhile (\<lambda>x. x = c) (replicate k c @ rev body) = dropWhile (\<lambda>x. x = c) (rev body)"
    by (induction k) auto
  moreover have "dropWhile (\<lambda>x. x = c) (rev body) = rev body"
    using a by (cases "rev body") (auto simp: )
  ultimately show ?thesis by (simp add: rstrip_def)
qed

lemma b64_shape:
  "\<forall>b\<in>set bs. b < 256 \<Longrightarrow>
   \<exists>body k. urlsafe_b64encode bs = body @ replicate k CHR ''=''
     \<and> length body = (4 * length bs + 2) div 3 \<and> set body \<subseteq> set urlsafe_alphabet"
proof (induction bs rule: urlsafe_b64encode.induct)
  case (1 a b c rest)
  then obtain body k where h: "urlsafe_b64encode rest = body @ replicate k CHR ''=''"
    "length body = (4 * length rest + 2) div 3" "set body \<subseteq> set urlsafe_alphabet"
    by auto
  have lt: "a div 4 < 64" "(a mod 4) * 16 + b div 16 < 64" "(b mod 16) * 4 + c div 64 < 64" "c mod 64 < 64"
    using 1(2) by auto
  let ?hd = "[b64_char (a div 4), b64_char ((a mod 4) * 16 + b div 16),
      b64_char ((b mod 16) * 4 + c div 64), b64_char (c mod 64)]"
  have "urlsafe_b64encode (a # b # c # rest) = (?hd @ body) @ replicate k CHR ''=''"
    using h(1) by simp
  moreover have "length (?hd @ body) = (4 * length (a # b # c # rest) + 2) div 3"
    using h(2) by simp
  moreover have "set (?hd @ body) \<subseteq> set urlsafe_alphabet"
    using h(3) lt by (auto intro: b64_char_mem)
  ultimately show ?case by blast
next
  case (2 a b)
  have lt: "a div 4 < 64" "(a mod 4) * 16 + b div 16 < 64" "(b mod 16) * 4 < 64"
    using 2 by auto
  let ?hd = "[b64_char (a div 4), b64_char ((a mod 4) * 16 + b div 16), b64_char ((b mod 16) * 4)]"
  have "urlsafe_b64encode [a, b] = ?hd @ replicate 1 CHR ''=''" by simp
  moreover have "length ?hd = (4 * length [a, b] + 2) div 3" by simp
  moreover have "set ?hd \<subseteq> set urlsafe_alphabet" using lt by (auto intro: b64_char_mem)
  ultimately show ?case by blast
next
  case (3 a)
  have lt: "a div 4 < 64" "(a mod 4) * 16 < 64"
    using 3 by auto
  let ?hd = "[b64_char (a div 4), b64_char ((a mod 4) * 16)]"
  have "urlsafe_b64encode [a] = ?hd @ replicate 2 CHR ''=''" by (simp add: numeral_2_eq_2)
  moreover have "length ?hd = (4 * length [a] + 2) div 3" by simp
  moreover have "set ?hd \<subseteq> set urlsafe_alphabet" using lt by (auto intro: b64_char_mem)
  ultimately show ?case by blast
next
  case 4
  have "urlsafe_b64encode [] = [] @ replicate 0 CHR ''=''" by simp
  then show ?case by (metis (no_types) empty_set empty_subsetI list.size(3) mult_0_right add_0 div_less zero_less_numeral numeral_2_eq_2 less_Suc_eq numeral_3_eq_3)
qed

lemma token_urlsafe_Inr:
  assumes "token_urlsafe n s = Inr (t, s')"
  shows "0 \<le> n \<and> int (length t) = (4 * n + 2) div 3 \<and> set t \<subseteq> set urlsafe_alphabet
     \<and> s' = advance (nat n) s"
proof -
  from assms obtain bs where tb: "token_bytes n s = Inr (bs, s')"
    and t: "t = rstrip CHR ''='' (urlsafe_b64encode bs)"
    by (auto simp: token_urlsafe_def split: sum.splits)
  from token_bytes_Inr[OF tb] have n: "0 \<le> n" "length bs = nat n" "\<forall>b\<in>set bs. b < 256"
    "s' = advance (nat n) s" by auto
  from b64_shape[OF n(3)] obtain body k where h: "urlsafe_b64encode bs = body @ replicate k CHR ''=''"
    "length body = (4 * length bs + 2) div 3" "set body \<subseteq> set urlsafe_alphabet" by blast
  have "CHR ''='' \<notin> set body" using h(3) eq_notin_alphabet by blast
  then have "t = body" using t h(1) by (simp add: rstrip_padding)
  moreover have "int ((4 * nat n + 2) div 3) = (4 * n + 2) div 3"
    using n(1) by (simp add: zdiv_int)
  ultimately show ?thesis using h n by simp
qed

lemma token_hex_Inr:
  assumes "token_hex n s = Inr (t, s')"
  shows "0 \<le> n \<and> int (length t) = 2 * n \<and> set t \<subseteq> set hex_alphabet
     \<and> s' = advance (nat n) s"
proof -
  from assms obtain bs where tb: "token_bytes n s = Inr (bs, s')" and t: "t = hexlify bs"
    by (auto simp: token_hex_def split: sum.splits)
  from token_bytes_Inr[OF tb] set_hexlify[of bs] t show ?thesis
    by (simp add: length_hexlify)
qed

lemma draw_names_Inr:
  "draw_names k len s = Inr (ns, s') \<Longrightarrow>
     length ns = k \<and>
     (\<forall>n\<in>set ns. int (length n) = (4 * len + 2) div 3 \<and> set n \<subseteq> set urlsafe_alphabet)"
proof (induction k arbitrary: s ns)
  case 0
  then show ?case by simp
next
  case (Suc k)
  from Suc.prems obtain n s1 ns' where
    a: "token_urlsafe len s = Inr (n, s1)" and b: "draw_names k len s1 = Inr (ns', s')"
    and c: "ns = n # ns'"
    by (auto split: sum.splits)
  from token_urlsafe_Inr[OF a] Suc.IH[OF b] c show ?case by simp
qed

lemma draw_record_Inr:
  assumes "draw_record self s = Inr (r, s')"
  shows "1 \<le> rec_level r" "rec_level r \<le> level_max self"
    "1 \<le> length (rec_objects r)" "int (length (rec_objects r)) \<le> objects_max self"
    "int (length (rec_id r)) = 2 * token_length self" "set (rec_id r) \<subseteq> set hex_alphabet"
    "\<forall>n\<in>set (rec_objects r). int (length n) = (4 * name_length self + 2) div 3
        \<and> set n \<subseteq> set urlsafe_alphabet"
proof -
  from assms obtain n s1 ns s2 tid s3 lv where
    a: "randbelow (objects_max self) s = Inr (n, s1)"
    and b: "draw_names (nat (n + 1)) (name_length self) s1 = Inr (ns, s2)"
    and c: "token_hex (token_length self) s2 = Inr (tid, s3)"
    and d: "randbelow (level_max self) s3 = Inr (lv, s')"
    and r: "r = \<lparr>rec_id = tid, rec_level = lv + 1, rec_objects = ns\<rparr>"
    by (auto simp: draw_record_def split: sum.splits)
  note A = randbelow_Inr[OF a] and B = draw_names_Inr[OF b] and C = token_hex_Inr[OF c]
    and D = randbelow_Inr[OF d]
  show "1 \<le> rec_level r" "rec_level r \<le> level_max self" using D r by auto
  show "1 \<le> length (rec_objects r)" "int (length (rec_objects r)) \<le> objects_max self"
    using A B r by auto
  show "int (length (rec_id r)) = 2 * token_length self" "set (rec_id r) \<subseteq> set hex_alphabet"
    using C r by auto
  show "\<forall>n\<in>set (rec_objects r). int (length n) = (4 * name_length self + 2) div 3
        \<and> set n \<subseteq> set urlsafe_alphabet"
    using B r by auto
qed

lemma draw_records_Inr:
  assumes "\<And>r s s'. draw_record self s = Inr (r, s') \<Longrightarrow> P r"
  shows "draw_records self k s = Inr (rs, s') \<Longrightarrow> length rs = k \<and> (\<forall>r\<in>set rs. P r)"
proof (induction k arbitrary: s rs)
  case 0
  then show ?case by simp
next
  case (Suc k)
  from Suc.prems obtain r s1 rs' where
    a: "draw_record self s = Inr (r, s1)" and b: "draw_records self k s1 = Inr (rs', s')"
    and c: "rs = r # rs'"
    by (auto split: sum.splits)
  from assms[OF a] Suc.IH[OF b] c show ?case by simp
qed

lemma draw_records_mem:
  "draw_records self k s = Inr (rs, s') \<Longrightarrow> r \<in> set rs \<Longrightarrow>
     \<exists>s1 s2. draw_record self s1 = Inr (r, s2)"
proof (induction k arbitrary: s rs)
  case 0
  then show ?case by simp
next
  case (Suc k)
  from Suc.prems(1) obtain r0 s1 rs' where
    a: "draw_record self s = Inr (r0, s1)" and b: "draw_records self k s1 = Inr (rs', s')"
    and c: "rs = r0 # rs'"
    by (auto split: sum.splits)
  show ?case
  proof (cases "r = r0")
    case True
    with a show ?thesis by blast
  next
    case False
    with Suc.prems(2) c have "r \<in> set rs'" by simp
    from Suc.IH[OF b this] show ?thesis .
  qed
qed

lemma LXML_generate_draw:
  "LXML_generate self s = Inr (docs, s') \<longleftrightarrow>
     (\<exists>rs. draw_records self (nat (xml_count self)) s = Inr (rs, s')
        \<and> docs = map (\<lambda>r. tostring (encode r)) rs)"
  unfolding LXML_generate_def generate_loop_draw by (auto split: sum.splits)

fun wf_element :: "element \<Rightarrow> bool" where
  "wf_element (Element t a cs) \<longleftrightarrow>
     is_name t \<and> list_all (\<lambda>kv. is_name (fst kv)) a \<and> distinct (map fst a)
     \<and> (\<forall>c \<in> set cs. wf_element c)"

fun tokens_of :: "element \<Rightarrow> token list" where
  "tokens_of (Element t a cs) =
     (if cs = [] then [EmptyTag t a]
      else STag t a # concat (map tokens_of cs) @ [ETag t])"

lemma expect_append [simp]: "expect p (p @ r) = Some r"
  by (simp add: expect_def)

lemma dquote_escape_char: "dquote \<notin> set (escape_attr_char c)"
  by (simp add: escape_attr_char_def dquote_def)

lemma dquote_escape: "dquote \<notin> set (escape_attr v)"
  by (induction v) (auto simp: escape_attr_def dquote_escape_char)

lemma unescape_escape_char:
  "unescape_attr (escape_attr_char c @ r) = map_option ((#) c) (unescape_attr r)"
  by (simp add: escape_attr_char_def dquote_def)

lemma unescape_escape: "unescape_attr (escape_attr v) = Some v"
proof (induction v)
  case Nil
  then show ?case by (simp add: escape_attr_def)
next
  case (Cons c v)
  have "escape_attr (c # v) = escape_attr_char c @ escape_attr v"
    by (simp add: escape_attr_def)
  with Cons show ?case by (simp add: unescape_escape_char del: unescape_attr.simps)
qed

lemma lex_value_escape: "lex_value (escape_attr v @ dquote # r) = Some (v, r)"
proof -
  have a: "\<And>x. x \<in> set (escape_attr v) \<Longrightarrow> x \<noteq> dquote"
    using dquote_escape by blast
  have "takeWhile (\<lambda>c. c \<noteq> dquote) (escape_attr v @ dquote # r) = escape_attr v"
    using a by (simp add: takeWhile_append2)
  moreover have "dropWhile (\<lambda>c. c \<noteq> dquote) (escape_attr v @ dquote # r) = dquote # r"
    using a by (simp add: dropWhile_append2)
  ultimately show ?thesis by (simp add: lex_value_def unescape_escape)
qed

lemma name_start_name_char: "name_start_char c \<Longrightarrow> name_char c"
  unfolding name_char_def by (rule disjI1)

lemma is_name_chars: "is_name n \<Longrightarrow> x \<in> set n \<Longrightarrow> name_char x"
proof (cases n)
  case Nil
  then show "is_name n \<Longrightarrow> x \<in> set n \<Longrightarrow> name_char x" by simp
next
  case (Cons c cs)
  assume a: "is_name n" and b: "x \<in> set n"
  from a Cons have "name_start_char c" "\<forall>y\<in>set cs. name_char y"
    by (simp_all add: is_name_def list_all_iff)
  with b Cons show "name_char x" using name_start_name_char by auto
qed

lemma lex_name_stop:
  assumes "is_name n" "\<not> name_char c"
  shows "lex_name (n @ c # r) = Some (n, c # r)"
proof -
  have "takeWhile name_char (n @ c # r) = n"
    using assms is_name_chars[OF assms(1)] by (simp add: takeWhile_append2)
  moreover have "dropWhile name_char (n @ c # r) = c # r"
    using assms is_name_chars[OF assms(1)] by (simp add: dropWhile_append2)
  ultimately show ?thesis using assms(1) by (simp add: lex_name_def)
qed

lemma not_name_char_all:
  "\<not> name_char CHR ''='' \<and> \<not> name_char CHR '' '' \<and> \<not> name_char CHR ''/''
   \<and> \<not> name_char CHR ''>'' \<and> \<not> name_char CHR ''<''"
  by code_simp

lemma not_name_char [simp]:
  "\<not> name_char CHR ''=''" "\<not> name_char CHR '' ''" "\<not> name_char CHR ''/''"
  "\<not> name_char CHR ''>''" "\<not> name_char CHR ''<''"
  using not_name_char_all by blast+

lemma lex_attr_string:
  "is_name (fst kv) \<Longrightarrow> lex_attr (fst kv @ CHR ''='' # dquote # escape_attr (snd kv) @ dquote # r) = Some (kv, r)"
  using expect_append[of "[CHR ''='', dquote]"]
  by (simp add: lex_attr_def lex_name_stop lex_value_escape del: expect_append)

lemma lex_attrs_strings:
  assumes "list_all (\<lambda>kv. is_name (fst kv)) a" "expect '' '' r = None"
  shows "lex_attrs (concat (map attr_string a) @ r) = Some (a, r)"
  using assms(1)
proof (induction a)
  case Nil
  with assms(2) show ?case by (simp add: lex_attrs.simps[of r])
next
  case (Cons kv a)
  let ?rest = "concat (map attr_string a) @ r"
  have s: "concat (map attr_string (kv # a)) @ r
      = '' '' @ (fst kv @ CHR ''='' # dquote # escape_attr (snd kv) @ dquote # ?rest)"
    by (simp add: attr_string_def)
  have k: "is_name (fst kv)" using Cons.prems by simp
  have "lex_attrs ?rest = Some (a, r)" using Cons by simp
  then show ?case
    unfolding s
    by (subst lex_attrs.simps) (simp add: lex_attr_string[OF k] del: append.simps)
qed

lemma is_name_Cons: "is_name t \<Longrightarrow> \<exists>c cs. t = c # cs \<and> name_char c"
  by (cases t) (auto simp: is_name_def name_start_name_char)

lemma attrs_then_stop:
  "\<not> name_char x \<Longrightarrow> \<exists>c r'. concat (map attr_string a) @ x # y = c # r' \<and> \<not> name_char c"
  by (cases a) (auto simp: attr_string_def)

lemma expect_close_None:
  assumes "is_name t"
  shows "expect ''</'' (CHR ''<'' # t @ r) = None"
proof -
  from is_name_Cons[OF assms] obtain c cs where t: "t = c # cs" and c: "name_char c" by blast
  from c have "c \<noteq> CHR ''/''" using not_name_char(3) by blast
  with t show ?thesis by (simp add: expect_def)
qed

lemma lex_tag_open:
  assumes "is_name t" "list_all (\<lambda>kv. is_name (fst kv)) a" "distinct (map fst a)"
    and x: "\<not> name_char x" "expect '' '' (x # y) = None"
  shows "lex_tag (CHR ''<'' # t @ concat (map attr_string a) @ x # y) =
     (case expect ''/>'' (x # y) of
        Some s4 \<Rightarrow> Some (EmptyTag t a, s4)
      | None \<Rightarrow> (case expect ''>'' (x # y) of
                    Some s4 \<Rightarrow> Some (STag t a, s4)
                  | None \<Rightarrow> None))"
proof -
  let ?rest = "concat (map attr_string a) @ x # y"
  have 1: "expect ''</'' (CHR ''<'' # t @ ?rest) = None"
    by (rule expect_close_None[OF assms(1)])
  have 2: "expect ''<'' (CHR ''<'' # t @ ?rest) = Some (t @ ?rest)"
    using expect_append[of "''<''" "t @ ?rest"] by simp
  from attrs_then_stop[OF x(1)] obtain c r' where r: "?rest = c # r'" and c: "\<not> name_char c"
    by blast
  have 3: "lex_name (t @ ?rest) = Some (t, ?rest)"
    unfolding r by (rule lex_name_stop[OF assms(1) c])
  have 4: "lex_attrs ?rest = Some (a, x # y)"
    by (rule lex_attrs_strings[OF assms(2) x(2)])
  show ?thesis
    using assms(3) by (simp add: lex_tag_def 1 2 3 4)
qed

lemma lex_tag_empty:
  assumes "is_name t" "list_all (\<lambda>kv. is_name (fst kv)) a" "distinct (map fst a)"
  shows "lex_tag (CHR ''<'' # t @ concat (map attr_string a) @ ''/>'' @ r) = Some (EmptyTag t a, r)"
proof -
  have e: "expect '' '' (CHR ''/'' # CHR ''>'' # r) = None" by (simp add: expect_def)
  have f: "expect ''/>'' (CHR ''/'' # CHR ''>'' # r) = Some r"
    using expect_append[of "''/>''" r] by simp
  from lex_tag_open[OF assms not_name_char(3) e] f show ?thesis by simp
qed

lemma lex_tag_start:
  assumes "is_name t" "list_all (\<lambda>kv. is_name (fst kv)) a" "distinct (map fst a)"
  shows "lex_tag (CHR ''<'' # t @ concat (map attr_string a) @ CHR ''>'' # r) = Some (STag t a, r)"
proof -
  have e: "expect '' '' (CHR ''>'' # r) = None" by (simp add: expect_def)
  have f: "expect ''/>'' (CHR ''>'' # r) = None" by (simp add: expect_def)
  have g: "expect ''>'' (CHR ''>'' # r) = Some r"
    using expect_append[of "''>''" r] by simp
  from lex_tag_open[OF assms not_name_char(4) e] f g show ?thesis by simp
qed

lemma lex_tag_end:
  assumes "is_name t"
  shows "lex_tag (''</'' @ t @ CHR ''>'' # r) = Some (ETag t, r)"
proof -
  have 1: "expect ''</'' (''</'' @ t @ CHR ''>'' # r) = Some (t @ CHR ''>'' # r)"
    by (rule expect_append)
  have 2: "lex_name (t @ CHR ''>'' # r) = Some (t, CHR ''>'' # r)"
    by (rule lex_name_stop[OF assms not_name_char(4)])
  have 3: "expect ''>'' (CHR ''>'' # r) = Some r"
    using expect_append[of "''>''" r] by simp
  show ?thesis by (simp add: lex_tag_def 1 [simplified] 2 3)
qed

lemma tokenize_step:
  "lex_tag s = Some (tok, r) \<Longrightarrow> tokenize s = map_option ((#) tok) (tokenize r)"
proof -
  assume a: "lex_tag s = Some (tok, r)"
  then have "s \<noteq> []" by (auto simp: lex_tag_def expect_def)
  with a show ?thesis by (subst tokenize.simps) simp
qed

lemma tokenize_children:
  assumes "\<And>c r. c \<in> set cs \<Longrightarrow>
     tokenize (tostring c @ r) = map_option ((@) (tokens_of c)) (tokenize r)"
  shows "tokenize (concat (map tostring cs) @ r)
     = map_option ((@) (concat (map tokens_of cs))) (tokenize r)"
  using assms
proof (induction cs)
  case Nil
  show ?case by (cases "tokenize r") simp_all
next
  case (Cons c cs)
  have "tokenize (concat (map tostring (c # cs)) @ r)
      = tokenize (tostring c @ (concat (map tostring cs) @ r))" by simp
  also have "\<dots> = map_option ((@) (tokens_of c)) (tokenize (concat (map tostring cs) @ r))"
    using Cons.prems by simp
  also have "\<dots> = map_option ((@) (tokens_of c))
      (map_option ((@) (concat (map tokens_of cs))) (tokenize r))"
    using Cons by simp
  also have "\<dots> = map_option ((@) (concat (map tokens_of (c # cs)))) (tokenize r)"
    by (cases "tokenize r") simp_all
  finally show ?case .
qed

lemma tokenize_tostring:
  "wf_element e \<Longrightarrow> tokenize (tostring e @ r) = map_option ((@) (tokens_of e)) (tokenize r)"
proof (induction e arbitrary: r)
  case (Element t a cs)
  from Element.prems have wf: "is_name t" "list_all (\<lambda>kv. is_name (fst kv)) a"
    "distinct (map fst a)" and wfc: "\<And>c. c \<in> set cs \<Longrightarrow> wf_element c"
    by simp_all
  show ?case
  proof (cases "cs = []")
    case True
    have "tostring (Element t a cs) @ r = CHR ''<'' # t @ concat (map attr_string a) @ ''/>'' @ r"
      using True by simp
    with tokenize_step[OF lex_tag_empty[OF wf, of r]] True show ?thesis
      by (cases "tokenize r") simp_all
  next
    case False
    let ?inner = "concat (map tostring cs) @ (''</'' @ t @ CHR ''>'' # r)"
    have s: "tostring (Element t a cs) @ r = CHR ''<'' # t @ concat (map attr_string a) @ CHR ''>'' # ?inner"
      using False by simp
    have ch: "tokenize ?inner = map_option ((@) (concat (map tokens_of cs)))
        (tokenize (''</'' @ t @ CHR ''>'' # r))"
      by (rule tokenize_children) (use Element.IH wfc in blast)
    have en: "tokenize (''</'' @ t @ CHR ''>'' # r) = map_option ((#) (ETag t)) (tokenize r)"
      by (rule tokenize_step[OF lex_tag_end[OF wf(1)]])
    have "tokenize (tostring (Element t a cs) @ r) = map_option ((#) (STag t a)) (tokenize ?inner)"
      unfolding s by (rule tokenize_step[OF lex_tag_start[OF wf]])
    with ch en False show ?thesis
      by (cases "tokenize r") simp_all
  qed
qed

lemma build_children:
  assumes "\<And>c t' a' cs' st ts. c \<in> set cs \<Longrightarrow>
     build ((t', a', cs') # st) (tokens_of c @ ts) = build ((t', a', c # cs') # st) ts"
  shows "build ((t, a, acc) # st) (concat (map tokens_of cs) @ ts)
     = build ((t, a, rev cs @ acc) # st) ts"
  using assms
proof (induction cs arbitrary: acc)
  case Nil
  show ?case by simp
next
  case (Cons c cs)
  have "build ((t, a, acc) # st) (concat (map tokens_of (c # cs)) @ ts)
      = build ((t, a, acc) # st) (tokens_of c @ (concat (map tokens_of cs) @ ts))" by simp
  also have "\<dots> = build ((t, a, c # acc) # st) (concat (map tokens_of cs) @ ts)"
    using Cons.prems[of c t a acc st] by simp
  also have "\<dots> = build ((t, a, rev cs @ c # acc) # st) ts"
    using Cons.IH[of "c # acc"] Cons.prems by simp
  finally show ?case by simp
qed

lemma build_tokens:
  "build ((t', a', cs') # st) (tokens_of e @ ts) = build ((t', a', e # cs') # st) ts"
proof (induction e arbitrary: t' a' cs' st ts)
  case (Element t a cs)
  show ?case
  proof (cases "cs = []")
    case True
    then show ?thesis by simp
  next
    case False
    have "build ((t, a, []) # (t', a', cs') # st) (concat (map tokens_of cs) @ (ETag t # ts))
        = build ((t, a, rev cs @ []) # (t', a', cs') # st) (ETag t # ts)"
      by (rule build_children) (use Element.IH in simp)
    with False show ?thesis by simp
  qed
qed

lemma build_root: "build [] (tokens_of e) = Some e"
proof (cases e)
  case (Element t a cs)
  show ?thesis
  proof (cases "cs = []")
    case True
    with Element show ?thesis by simp
  next
    case False
    have "build [(t, a, [])] (concat (map tokens_of cs) @ [ETag t])
        = build [(t, a, rev cs @ [])] [ETag t]"
      by (rule build_children) (simp add: build_tokens)
    with False Element show ?thesis by simp
  qed
qed

lemma tokenize_Nil: "tokenize [] = Some []"
  by (simp add: tokenize.simps)

theorem etree_parse_tostring: "wf_element e \<Longrightarrow> etree_parse (tostring e) = Inr e"
proof -
  assume "wf_element e"
  from tokenize_tostring[OF this, of "[]"] have "tokenize (tostring e) = Some (tokens_of e)"
    by (simp add: tokenize_Nil)
  then show ?thesis by (simp add: etree_parse_def build_root)
qed

section \<open>Reading back an encoded record\<close>

lemma names_of_encode:
  "is_name ''root'' \<and> is_name ''var'' \<and> is_name ''objects'' \<and> is_name ''object''
   \<and> is_name ''name'' \<and> is_name ''value''"
  by code_simp

lemma wf_object: "wf_element (Element ''object'' [(''name'', n)] [])"
  using names_of_encode by simp

lemma wf_encode: "wf_element (encode r)"
  using names_of_encode by (simp add: encode_def wf_object)

lemma iter_all_objects:
  "concat (map (iter_all \<circ> (\<lambda>n. Element ''object'' [(''name'', n)] [])) ns)
     = map (\<lambda>n. Element ''object'' [(''name'', n)] []) ns"
  by (induction ns) simp_all

lemma element_iter_objects:
  "element_iter ''object'' (Element ''objects'' [] (map (\<lambda>n. Element ''object'' [(''name'', n)] []) ns))
     = map (\<lambda>n. Element ''object'' [(''name'', n)] []) ns"
proof -
  have "filter (\<lambda>x. tag x = ''object'') (map (\<lambda>n. Element ''object'' [(''name'', n)] []) ns)
      = map (\<lambda>n. Element ''object'' [(''name'', n)] []) ns"
    by (induction ns) simp_all
  then show ?thesis by (simp add: element_iter_def iter_all_objects)
qed

lemma read_tree_encode:
  "find_descendant ''var'' ''name'' ''id'' (encode r)
     = Some (Element ''var'' [(''name'', ''id''), (''value'', rec_id r)] [])"
  "find_descendant ''var'' ''name'' ''level'' (encode r)
     = Some (Element ''var'' [(''name'', ''level''), (''value'', str_int (rec_level r))] [])"
  "find_child ''objects'' (encode r)
     = Some (Element ''objects'' [] (map (\<lambda>n. Element ''object'' [(''name'', n)] []) (rec_objects r)))"
  by (simp_all add: find_descendant_def find_child_def encode_def element_get_def)

lemma LXML_read_encode: "LXML_read (tostring (encode r)) = Inr (record_dict r)"
proof -
  have p: "etree_parse (tostring (encode r)) = Inr (encode r)"
    by (rule etree_parse_tostring[OF wf_encode])
  have "map (\<lambda>obj. element_get obj ''name'') (map (\<lambda>n. Element ''object'' [(''name'', n)] []) ns)
      = map Some ns" for ns
    by (induction ns) (simp_all add: element_get_def)
  then show ?thesis
    by (simp add: LXML_read_def p read_tree_encode element_iter_objects record_dict_def
        element_get_def del: tostring.simps)
qed

section \<open>Reading the document of a tree\<close>












section \<open>The results of the worker pool do not depend on the schedule\<close>

lemma mset_remove_nth:
  "k < length xs \<Longrightarrow> mset xs = add_mset (xs ! k) (mset (remove_nth k xs))"
proof -
  assume a: "k < length xs"
  have "mset xs = mset (take k xs @ xs ! k # drop (Suc k) xs)"
    using id_take_nth_drop[OF a] by simp
  then show ?thesis by (simp add: remove_nth_def)
qed

lemma run_pool_results:
  "\<forall>x s y s'. f x s = Inr (y, s') \<longrightarrow> y = g x \<Longrightarrow>
   run_pool f pending sched s = Inr (finished, s') \<Longrightarrow>
     mset finished = mset (map (\<lambda>p. (fst p, g (snd p))) pending)"
proof (induction f pending sched s arbitrary: finished rule: run_pool.induct)
  case (1 f pending sched s)
  show ?case
  proof (cases "pending = []")
    case True
    with "1.prems"(2) show ?thesis by (simp add: run_pool.simps[of f "[]"])
  next
    case False
    let ?k = "pick sched pending"
    have k: "?k < length pending" by (rule pick_less[OF False])
    from "1.prems"(2) False obtain y s1 fin where
      a: "f (snd (pending ! ?k)) s = Inr (y, s1)"
      and b: "run_pool f (remove_nth ?k pending) sched s1 = Inr (fin, s')"
      and c: "finished = (fst (pending ! ?k), y) # fin"
      by (subst (asm) run_pool.simps) (auto split: sum.splits)
    have y: "y = g (snd (pending ! ?k))" using "1.prems"(1) a by blast
    have ih: "mset fin = mset (map (\<lambda>p. (fst p, g (snd p))) (remove_nth ?k pending))"
      using "1.IH"[OF False a refl "1.prems"(1) b] by simp
    have "mset (map (\<lambda>p. (fst p, g (snd p))) pending)
        = image_mset (\<lambda>p. (fst p, g (snd p))) (mset pending)" by simp
    also have "\<dots> = image_mset (\<lambda>p. (fst p, g (snd p)))
        (add_mset (pending ! ?k) (mset (remove_nth ?k pending)))"
      using mset_remove_nth[OF k] by simp
    finally show ?thesis using c y ih by simp
  qed
qed

lemma filter_distinct_key:
  "distinct (map f xs) \<Longrightarrow> k \<in> set xs \<Longrightarrow> filter (\<lambda>x. f k = f x) xs = [k]"
proof (induction xs)
  case Nil
  then show ?case by simp
next
  case (Cons x xs)
  show ?case
  proof (cases "k = x")
    case True
    have "filter (\<lambda>y. f x = f y) xs = []"
      using Cons.prems(1) by (auto simp: filter_empty_conv)
    with True show ?thesis by simp
  next
    case False
    with Cons.prems have "k \<in> set xs" by simp
    moreover have "f k \<noteq> f x"
    proof
      assume e: "f k = f x"
      have "f k \<in> set (map f xs)" using \<open>k \<in> set xs\<close> by simp
      moreover have "f x \<notin> set (map f xs)" using Cons.prems(1) by simp
      ultimately show False using e by simp
    qed
    ultimately show ?thesis using Cons by simp
  qed
qed

lemma sort_key_permutation:
  assumes "mset finished = mset ys" "distinct (map fst ys)" "sorted (map fst ys)"
  shows "sort_key fst finished = ys"
proof (rule properties_for_sort_key)
  show "mset ys = mset finished" using assms(1) by simp
  show "sorted (map fst ys)" by (rule assms(3))
  fix k assume k: "k \<in> set ys"
  have "mset (map fst finished) = mset (map fst ys)" using assms(1) by (metis mset_map)
  then have d: "distinct (map fst finished)"
    using assms(2) mset_eq_imp_distinct_iff by blast
  have k': "k \<in> set finished" using k assms(1) mset_eq_setD by blast
  show "filter (\<lambda>x. fst k = fst x) ys = filter (\<lambda>x. fst k = fst x) finished"
    using filter_distinct_key[OF assms(2) k] filter_distinct_key[OF d k'] by simp
qed

lemma Pool_map_results:
  assumes g: "\<And>x s y s'. f x s = Inr (y, s') \<Longrightarrow> y = g x"
    and r: "Pool_map f xs sched s = Inr (ys, s')"
  shows "ys = map g xs"
proof -
  from r obtain finished where a: "run_pool f (enumerate 0 xs) sched s = Inr (finished, s')"
    and b: "ys = map snd (sort_key fst finished)"
    by (auto simp: Pool_map_def split: sum.splits)
  let ?zs = "map (\<lambda>p. (fst p, g (snd p))) (enumerate 0 xs)"
  have m: "mset finished = mset ?zs"
    by (rule run_pool_results[OF _ a]) (use g in blast)
  have f: "map fst ?zs = [0..<length xs]" by (simp add: comp_def)
  have d: "distinct (map fst ?zs)" "sorted (map fst ?zs)"
    unfolding f by simp_all
  have "sort_key fst finished = ?zs"
    by (rule sort_key_permutation[OF m d])
  moreover have "map snd ?zs = map g (map snd (enumerate 0 xs))"
    by (simp only: map_map comp_def snd_conv)
  ultimately show ?thesis using b by (simp only: map_snd_enumerate)
qed

lemma run_pool_total:
  "\<forall>x s. \<exists>y s'. f x s = Inr (y, s') \<Longrightarrow>
   \<exists>finished s'. run_pool f pending sched s = Inr (finished, s')"
proof (induction f pending sched s rule: run_pool.induct)
  case (1 f pending sched s)
  show ?case
  proof (cases "pending = []")
    case True
    then show ?thesis by (simp add: run_pool.simps[of f "[]"])
  next
    case False
    let ?k = "pick sched pending"
    from "1.prems" obtain y s1 where a: "f (snd (pending ! ?k)) s = Inr (y, s1)" by blast
    from "1.IH"[OF False a refl "1.prems"] obtain fin s2 where
      b: "run_pool f (remove_nth ?k pending) sched s1 = Inr (fin, s2)" by blast
    show ?thesis using False a b by (subst run_pool.simps) simp
  qed
qed

lemma Pool_map_total:
  assumes t: "\<And>x s. \<exists>y s'. f x s = Inr (y, s')"
  shows "\<exists>ys s'. Pool_map f xs sched s = Inr (ys, s')"
proof -
  from t have "\<forall>x s. \<exists>y s'. f x s = Inr (y, s')" by blast
  from run_pool_total[OF this, of "enumerate 0 xs" sched s] obtain fin s' where
    "run_pool f (enumerate 0 xs) sched s = Inr (fin, s')" by blast
  then show ?thesis by (simp add: Pool_map_def)
qed

section \<open>Building an archive\<close>

lemma draw_records_length: "draw_records self k s = Inr (rs, s') \<Longrightarrow> length rs = k"
  by (induction k arbitrary: s rs) (auto split: sum.splits)

lemma draw_names_total: "0 \<le> len \<Longrightarrow> \<exists>ns s'. draw_names k len s = Inr (ns, s')"
proof (induction k arbitrary: s)
  case 0
  then show ?case by simp
next
  case (Suc k)
  from Suc.prems obtain n s1 where a: "token_urlsafe len s = Inr (n, s1)"
    by (auto simp: token_urlsafe_def token_bytes_def)
  from Suc.IH[OF Suc.prems, of s1] obtain ns s2 where "draw_names k len s1 = Inr (ns, s2)"
    by blast
  with a show ?case by simp
qed

lemma draw_record_total:
  assumes "valid_config self"
  shows "\<exists>r s'. draw_record self s = Inr (r, s')"
proof -
  from assms have v: "0 \<le> token_length self" "0 < level_max self" "0 \<le> name_length self"
    "0 < objects_max self" by (simp_all add: valid_config_def)
  obtain n s1 where a: "randbelow (objects_max self) s = Inr (n, s1)"
    using v(4) by (auto simp: randbelow_def)
  obtain ns s2 where b: "draw_names (nat (n + 1)) (name_length self) s1 = Inr (ns, s2)"
    using draw_names_total[OF v(3)] by blast
  obtain tid s3 where c: "token_hex (token_length self) s2 = Inr (tid, s3)"
    using v(1) by (auto simp: token_hex_def token_bytes_def)
  obtain lv s4 where d: "randbelow (level_max self) s3 = Inr (lv, s4)"
    using v(2) by (auto simp: randbelow_def)
  show ?thesis using a b c d by (simp add: draw_record_def)
qed

lemma draw_records_total:
  assumes "valid_config self"
  shows "\<exists>rs s'. draw_records self k s = Inr (rs, s')"
proof (induction k arbitrary: s)
  case 0
  then show ?case by simp
next
  case (Suc k)
  from draw_record_total[OF assms, of s] obtain r s1 where a: "draw_record self s = Inr (r, s1)"
    by blast
  from Suc.IH[of s1] obtain rs s2 where "draw_records self k s1 = Inr (rs, s2)" by blast
  with a show ?case by simp
qed

lemma LXML_generate_total:
  "valid_config self \<Longrightarrow> \<exists>docs s'. LXML_generate self s = Inr (docs, s')"
  using draw_records_total[of self "nat (xml_count self)" s]
  by (auto simp: LXML_generate_draw)

lemma LXML_generate_length: "LXML_generate self s = Inr (docs, s') \<Longrightarrow> length docs = nat (xml_count self)"
  by (auto simp: LXML_generate_draw dest: draw_records_length)

lemma map_fst_enumerate_fun:
  "map (\<lambda>p. h (fst p)) (enumerate n xs) = map h [n..<n + length xs]"
proof -
  have "map (\<lambda>p. h (fst p)) (enumerate n xs) = map h (map fst (enumerate n xs))"
    by (simp only: map_map comp_def)
  then show ?thesis by (simp only: map_fst_enumerate)
qed

lemma write_members_eq:
  "write_members i docs zf
     = zf @ map (\<lambda>p. (str_int (int (fst p)) @ ''.xml'', snd p)) (enumerate i docs)"
  by (induction docs arbitrary: i zf) (simp_all add: writestr_def)

lemma Zip_create_Inr:
  assumes "Zip_create self prefix w = Inr (name, w')"
  shows "\<exists>docs. LXML_generate (xml self) (rng w) = Inr (docs, rng w')
           \<and> name = str_int prefix @ ''.zip''
           \<and> fs w' = (fs w)(name \<mapsto> write_members 0 docs [])"
  using assms by (auto simp: Zip_create_def Let_def split: sum.splits)

lemma Zip_create_total:
  "valid_config (xml self) \<Longrightarrow> \<exists>name w'. Zip_create self prefix w = Inr (name, w')"
  using LXML_generate_total[of "xml self" "rng w"]
  by (auto simp: Zip_create_def Let_def)

lemma run_pool_create_dom:
  "run_pool (Zip_create self) pending sched w = Inr (finished, w') \<Longrightarrow>
     dom (fs w) \<subseteq> dom (fs w') \<and> snd ` set finished \<subseteq> dom (fs w')"
proof (induction "Zip_create self" pending sched w arbitrary: finished rule: run_pool.induct)
  case (1 pending sched w)
  show ?case
  proof (cases "pending = []")
    case True
    with "1.prems" show ?thesis by (simp add: run_pool.simps[of _ "[]"])
  next
    case False
    let ?k = "pick sched pending"
    from "1.prems" False obtain y s1 fin where
      a: "Zip_create self (snd (pending ! ?k)) w = Inr (y, s1)"
      and b: "run_pool (Zip_create self) (remove_nth ?k pending) sched s1 = Inr (fin, w')"
      and c: "finished = (fst (pending ! ?k), y) # fin"
      by (subst (asm) run_pool.simps) (auto split: sum.splits)
    from Zip_create_Inr[OF a] have d: "dom (fs s1) = insert y (dom (fs w))" by auto
    from "1.hyps"[OF False a refl b] have
      "dom (fs s1) \<subseteq> dom (fs w')" "snd ` set fin \<subseteq> dom (fs w')" by blast+
    with c d show ?thesis by auto
  qed
qed

lemma Zip_create_name:
  "Zip_create self prefix w = Inr (name, w') \<Longrightarrow> name = str_int prefix @ ''.zip''"
  by (auto dest: Zip_create_Inr)

lemma Zip_read_self: "Zip_read self files = Zip_read self' files"
  by (rule ext) (simp add: Zip_read_def)

lemma read_generated_loop_Inr:
  "read_generated_loop self files names = (self', err) \<Longrightarrow>
     generated_files self' = generated_files self \<and> xml self' = xml self
     \<and> (\<exists>batches. loaded_data self' = loaded_data self @ batches
           \<and> map (Zip_read self files) (take (length batches) names) = map Inr batches
           \<and> (err = None \<longrightarrow> length batches = length names)
           \<and> (\<forall>e. err = Some e \<longrightarrow> length batches < length names
                  \<and> Zip_read self files (names ! length batches) = Inl e))"
proof (induction names arbitrary: self)
  case Nil
  then show ?case by simp
next
  case (Cons filename rest)
  show ?case
  proof (cases "Zip_read self files filename")
    case (Inl e)
    with Cons.prems have "self' = self" "err = Some e" by simp_all
    with Inl show ?thesis by simp
  next
    case (Inr batch)
    let ?self1 = "self\<lparr>loaded_data := loaded_data self @ [batch]\<rparr>"
    from Cons.prems Inr have "read_generated_loop ?self1 files rest = (self', err)" by simp
    from Cons.IH[OF this] obtain batches where
      a: "generated_files self' = generated_files self" "xml self' = xml self"
      and b: "loaded_data self' = loaded_data self @ batch # batches"
      and c: "map (Zip_read ?self1 files) (take (length batches) rest) = map Inr batches"
      and d: "err = None \<longrightarrow> length batches = length rest"
      and e: "\<forall>e. err = Some e \<longrightarrow> length batches < length rest
                  \<and> Zip_read ?self1 files (rest ! length batches) = Inl e"
      by auto
    have z: "Zip_read ?self1 files = Zip_read self files" by (rule Zip_read_self)
    show ?thesis
      apply (intro conjI)
        apply (rule a(1))
       apply (rule a(2))
      apply (rule exI[of _ "batch # batches"])
      using b c d e Inr unfolding z by simp
  qed
qed

lemma read_generated_loop_success:
  "map (Zip_read self files) names = map Inr batches \<Longrightarrow>
     read_generated_loop self files names
       = (self\<lparr>loaded_data := loaded_data self @ batches\<rparr>, None)"
proof (induction names arbitrary: self batches)
  case Nil
  then show ?case by simp
next
  case (Cons filename rest)
  from Cons.prems obtain batch bs where b: "batches = batch # bs"
    and r: "Zip_read self files filename = Inr batch"
    and m: "map (Zip_read self files) rest = map Inr bs"
    by (cases batches) auto
  let ?self1 = "self\<lparr>loaded_data := loaded_data self @ [batch]\<rparr>"
  have "map (Zip_read ?self1 files) rest = map Inr bs"
    using m Zip_read_self[of ?self1 files self] by simp
  from Cons.IH[OF this] r b show ?case by simp
qed

lemma LXML_generate_cfg1:
  "map_sum id fst (LXML_generate cfg1 tape0) = Inr [tostring (encode rec1)]"
  by code_simp

section \<open>The frames that \<^verbatim>\<open>CSV.write\<close> builds\<close>

lemma length_object_rows: "length (object_rows e) = length (dict_object_names e)"
  by (simp add: object_rows_def)

lemma loc_set_append:
  "index df = [0..<length (rows df)] \<Longrightarrow>
     loc_set df (len_df df) row
       = df\<lparr>index := [0..<Suc (length (rows df))], rows := rows df @ [row]\<rparr>"
  by (simp add: loc_set_def len_df_def)

lemma foldl_loc_set:
  "index df = [0..<length (rows df)] \<Longrightarrow>
     foldl (\<lambda>df x. loc_set df (len_df df) (row x)) df xs
       = df\<lparr>index := [0..<length (rows df) + length xs], rows := rows df @ map row xs\<rparr>"
proof (induction xs arbitrary: df)
  case Nil
  then show ?case by simp
next
  case (Cons x xs)
  let ?df1 = "df\<lparr>index := [0..<Suc (length (rows df))], rows := rows df @ [row x]\<rparr>"
  have i: "index ?df1 = [0..<length (rows ?df1)]" by simp
  have "foldl (\<lambda>df x. loc_set df (len_df df) (row x)) df (x # xs)
      = foldl (\<lambda>df x. loc_set df (len_df df) (row x)) ?df1 xs"
    using loc_set_append[OF Cons.prems] by simp
  also have "\<dots> = ?df1\<lparr>index := [0..<length (rows ?df1) + length xs],
      rows := rows ?df1 @ map row xs\<rparr>"
    by (rule Cons.IH[OF i])
  finally show ?case by simp
qed

lemma CSV_parse_level_eq:
  "CSV_parse_level data
     = \<lparr>columns = [''id'', ''level''], index = [0..<length data], rows = map level_row data\<rparr>"
proof -
  have "index (DataFrame_empty [''id'', ''level''])
      = [0..<length (rows (DataFrame_empty [''id'', ''level'']))]"
    by (simp add: DataFrame_empty_def)
  from foldl_loc_set[OF this, of level_row data] show ?thesis
    by (simp add: CSV_parse_level_def level_row_def DataFrame_empty_def)
qed

lemma foldl_objects:
  "index df = [0..<length (rows df)] \<Longrightarrow>
     foldl (\<lambda>df element.
         foldl (\<lambda>df obj_name. loc_set df (len_df df) [dict_id element, obj_name])
           df (dict_object_names element)) df data
       = df\<lparr>index := [0..<length (rows df) + length (concat (map object_rows data))],
            rows := rows df @ concat (map object_rows data)\<rparr>"
proof (induction data arbitrary: df)
  case Nil
  then show ?case by simp
next
  case (Cons e data)
  let ?inner = "foldl (\<lambda>df obj_name. loc_set df (len_df df) [dict_id e, obj_name])
      df (dict_object_names e)"
  have a: "?inner = df\<lparr>index := [0..<length (rows df) + length (dict_object_names e)],
      rows := rows df @ object_rows e\<rparr>"
    using foldl_loc_set[OF Cons.prems, of "\<lambda>obj_name. [dict_id e, obj_name]" "dict_object_names e"]
    by (simp add: object_rows_def)
  let ?df1 = "df\<lparr>index := [0..<length (rows df) + length (dict_object_names e)],
      rows := rows df @ object_rows e\<rparr>"
  let ?F = "\<lambda>df element.
         foldl (\<lambda>df obj_name. loc_set df (len_df df) [dict_id element, obj_name])
           df (dict_object_names element)"
  have i: "index ?df1 = [0..<length (rows ?df1)]"
    by (simp add: length_object_rows)
  have "foldl ?F df (e # data) = foldl ?F ?inner data" by simp
  also have "\<dots> = foldl ?F ?df1 data" by (simp only: a)
  also have "\<dots> = ?df1\<lparr>index := [0..<length (rows ?df1) + length (concat (map object_rows data))],
            rows := rows ?df1 @ concat (map object_rows data)\<rparr>"
    by (rule Cons.IH[OF i])
  finally show ?case by (simp add: length_object_rows add.assoc)
qed

lemma CSV_parse_objects_eq:
  "CSV_parse_objects data
     = \<lparr>columns = [''id'', ''object_name''],
        index = [0..<length (concat (map object_rows data))],
        rows = concat (map object_rows data)\<rparr>"
proof -
  have "index (DataFrame_empty [''id'', ''object_name''])
      = [0..<length (rows (DataFrame_empty [''id'', ''object_name'']))]"
    by (simp add: DataFrame_empty_def)
  from foldl_objects[OF this, of data] show ?thesis
    by (simp add: CSV_parse_objects_def DataFrame_empty_def)
qed

lemma Pool_map_pure:
  "Pool_map (\<lambda>x u. Inr (g x, u)) xs sched () = Inr (map g xs, ())"
proof -
  have "\<exists>ys s'. Pool_map (\<lambda>x u. Inr (g x, u)) xs sched () = Inr (ys, s')"
    by (rule Pool_map_total) blast
  then obtain ys s' where p: "Pool_map (\<lambda>x u. Inr (g x, u)) xs sched () = Inr (ys, s')"
    by blast
  have "ys = map g xs" by (rule Pool_map_results[OF _ p]) simp
  with p show ?thesis by simp
qed

lemma CSV_write_Inr:
  assumes "data \<noteq> []"
  shows "CSV_write sched1 sched2 data
     = Inr (\<lparr>columns = [''id'', ''level''],
             index = concat (map (\<lambda>batch. [0..<length batch]) data),
             rows = concat (map (map level_row) data)\<rparr>,
            \<lparr>columns = [''id'', ''object_name''],
             index = concat (map (\<lambda>batch. [0..<length (concat (map object_rows batch))]) data),
             rows = concat (map (\<lambda>batch. concat (map object_rows batch)) data)\<rparr>)"
proof -
  from assms obtain b bs where d: "data = b # bs" by (cases data) auto
  show ?thesis
    unfolding CSV_write_def Pool_map_pure
    by (simp add: d pandas_concat_def CSV_parse_level_eq CSV_parse_objects_eq comp_def)
qed

lemma CSV_write_Nil: "CSV_write sched1 sched2 [] = Inl ValueError"
  unfolding CSV_write_def Pool_map_pure by (simp add: pandas_concat_def)

lemma sum_list_all_equal:
  "\<forall>x\<in>set xs. f x = k \<Longrightarrow> sum_list (map f xs) = length xs * k"
  by (induction xs) simp_all

section \<open>Reading back an archive that \<^verbatim>\<open>Zip.create\<close> built\<close>

lemma digit_char_inj: "a < 10 \<Longrightarrow> b < 10 \<Longrightarrow> digit_char a = digit_char b \<Longrightarrow> a = b"
proof -
  assume a: "a < 10" and b: "b < 10" and e: "digit_char a = digit_char b"
  have d: "distinct ''0123456789''" by simp
  have l: "length ''0123456789'' = 10" by simp
  from e have "''0123456789'' ! a = ''0123456789'' ! b" by (simp only: digit_char_def)
  with d a b l show "a = b" by (simp only: nth_eq_iff_index_eq)
qed

lemma str_nat_nonempty: "str_nat n \<noteq> []"
  by (subst str_nat.simps) simp

lemma str_nat_length_one: "length (str_nat n) = 1 \<longleftrightarrow> n < 10"
proof (cases "n < 10")
  case True
  then show ?thesis by (subst str_nat.simps) simp
next
  case False
  then have "length (str_nat n) = Suc (length (str_nat (n div 10)))"
    by (subst str_nat.simps) simp
  with False str_nat_nonempty[of "n div 10"] show ?thesis by simp
qed

lemma str_nat_inj: "str_nat a = str_nat b \<Longrightarrow> a = b"
proof (induction a arbitrary: b rule: str_nat.induct)
  case (1 n)
  show ?case
  proof (cases "n < 10")
    case True
    with "1.prems" have b: "b < 10" using str_nat_length_one[of n] str_nat_length_one[of b] by simp
    from True b "1.prems" have "digit_char n = digit_char b"
      by (simp add: str_nat.simps[of n] str_nat.simps[of b])
    with True b show ?thesis by (rule digit_char_inj)
  next
    case False
    with "1.prems" have b: "\<not> b < 10" using str_nat_length_one[of n] str_nat_length_one[of b] by simp
    from False b "1.prems" have e: "str_nat (n div 10) = str_nat (b div 10)"
      and d: "digit_char (n mod 10) = digit_char (b mod 10)"
      by (simp_all add: str_nat.simps[of n] str_nat.simps[of b])
    from "1.IH"[OF False e] have "n div 10 = b div 10" .
    moreover from d have "n mod 10 = b mod 10" by (intro digit_char_inj) simp_all
    ultimately show ?thesis by (metis div_mult_mod_eq)
  qed
qed

lemma member_name_inj: "inj (\<lambda>i. str_int (int i) @ ''.xml'')"
  by (rule injI) (simp add: str_int_def str_nat_inj)

lemma distinct_member_names: "distinct (map fst (write_members 0 docs []))"
proof -
  have "map fst (write_members 0 docs [])
      = map (\<lambda>i. str_int (int i) @ ''.xml'') [0..<0 + length docs]"
    using map_fst_enumerate_fun[of "\<lambda>i. str_int (int i) @ ''.xml''" 0 docs]
    by (simp add: write_members_eq comp_def)
  then show ?thesis by (simp add: distinct_map member_name_inj[THEN inj_on_subset])
qed

lemma zip_open_distinct:
  assumes "distinct (map fst zf)" and "(n, d) \<in> set zf"
  shows "zip_open zf n = Some d"
proof -
  from assms(1) have "distinct (map fst (rev zf))" by (simp add: rev_map[symmetric])
  moreover from assms(2) have "(n, d) \<in> set (rev zf)" by simp
  ultimately show ?thesis unfolding zip_open_def by (rule map_of_is_SomeI)
qed

lemma read_members_encoded:
  assumes "distinct (map fst zf)"
  shows "\<forall>p \<in> set nrs. (fst p, tostring (encode (snd p))) \<in> set zf \<Longrightarrow>
     read_members zf (map fst nrs) = Inr (map (\<lambda>p. record_dict (snd p)) nrs)"
proof (induction nrs)
  case Nil
  then show ?case by simp
next
  case (Cons p nrs)
  from Cons.prems have m: "(fst p, tostring (encode (snd p))) \<in> set zf" by simp
  have o: "zip_open zf (fst p) = Some (tostring (encode (snd p)))"
    by (rule zip_open_distinct[OF assms m])
  from Cons.prems have "read_members zf (map fst nrs) = Inr (map (\<lambda>p. record_dict (snd p)) nrs)"
    by (intro Cons.IH) simp
  with o show ?case by (simp add: LXML_read_encode)
qed

lemma enumerate_map_snd:
  "enumerate n (map f xs) = map (\<lambda>p. (fst p, f (snd p))) (enumerate n xs)"
  by (induction xs arbitrary: n) simp_all

lemma Zip_read_created:
  assumes "files name = Some (write_members 0 (map (\<lambda>r. tostring (encode r)) rs) [])"
  shows "Zip_read self files name = Inr (map record_dict rs)"
proof -
  let ?zf = "write_members 0 (map (\<lambda>r. tostring (encode r)) rs) []"
  let ?nrs = "map (\<lambda>p. (str_int (int (fst p)) @ ''.xml'', snd p)) (enumerate 0 rs)"
  have z: "?zf = map (\<lambda>p. (fst p, tostring (encode (snd p)))) ?nrs"
    by (simp add: write_members_eq enumerate_map_snd comp_def)
  have n: "namelist ?zf = map fst ?nrs"
    unfolding z namelist_def by (simp add: comp_def)
  have "\<forall>p \<in> set ?nrs. (fst p, tostring (encode (snd p))) \<in> set ?zf"
    unfolding z by simp
  from read_members_encoded[OF distinct_member_names this]
  have "read_members ?zf (namelist ?zf) = Inr (map (\<lambda>p. record_dict (snd p)) ?nrs)"
    unfolding n .
  also have "map (\<lambda>p. record_dict (snd p)) ?nrs = map record_dict (map snd (enumerate 0 rs))"
    by (simp only: map_map comp_def snd_conv)
  also have "\<dots> = map record_dict rs" by (simp only: map_snd_enumerate)
  finally show ?thesis using assms by (simp add: Zip_read_def)
qed

section \<open>Claim C1: decoding an encoded record\<close>




section \<open>Claim C2: documents with missing entries\<close>





section \<open>Claim C3: the members of an archive\<close>

text \<open>
  C3. The archive that \<^verbatim>\<open>Zip.create\<close> builds over an \<^verbatim>\<open>LXML\<close> with
  \<open>xml_count = k\<close> is stored under \<^verbatim>\<open>f"{prefix}.zip"\<close> and has exactly \<open>k\<close> members,
  named \<^verbatim>\<open>0.xml\<close> to \<^verbatim>\<open>(k-1).xml\<close> in this order (none for a negative \<open>k\<close>).
  By \<open>Zip_create_total\<close> the call returns for every valid configuration.
\<close>

theorem archive_members:
  assumes "Zip_create self prefix w = Inr (name, w')"
  shows "name = str_int prefix @ ''.zip''
     \<and> (\<exists>zf. fs w' name = Some zf
           \<and> namelist zf = map (\<lambda>i. str_int (int i) @ ''.xml'') [0..<nat (xml_count (xml self))]
           \<and> length zf = nat (xml_count (xml self)))"
proof -
  from Zip_create_Inr[OF assms] obtain docs where
    g: "LXML_generate (xml self) (rng w) = Inr (docs, rng w')"
    and n: "name = str_int prefix @ ''.zip''"
    and f: "fs w' = (fs w)(name \<mapsto> write_members 0 docs [])"
    by blast
  let ?zf = "write_members 0 docs []"
  have l: "length docs = nat (xml_count (xml self))" by (rule LXML_generate_length[OF g])
  have "namelist ?zf = map (\<lambda>p. str_int (int (fst p)) @ ''.xml'') (enumerate 0 docs)"
    by (simp add: write_members_eq namelist_def comp_def)
  then have "namelist ?zf = map (\<lambda>i. str_int (int i) @ ''.xml'') [0..<nat (xml_count (xml self))]"
    using l map_fst_enumerate_fun[of "\<lambda>i. str_int (int i) @ ''.xml''" 0 docs] by simp
  moreover have "length ?zf = nat (xml_count (xml self))"
    using l by (simp add: write_members_eq)
  moreover have "fs w' name = Some ?zf" using f by simp
  ultimately show ?thesis using n by blast
qed

lemma Zip_create_zip1:
  "map_sum id fst (Zip_create zip1 0 world0) = Inr ''0.zip''"
  by code_simp

theorem archive_members_witness:
  "\<exists>name w'. Zip_create zip1 0 world0 = Inr (name, w')
     \<and> name = ''0.zip''
     \<and> (\<exists>zf. fs w' name = Some zf \<and> namelist zf = [''0.xml''] \<and> length zf = 1)"
proof -
  obtain name w' where h: "Zip_create zip1 0 world0 = Inr (name, w')" and n: "name = ''0.zip''"
    using Zip_create_zip1 by (cases "Zip_create zip1 0 world0") auto
  have x: "map (\<lambda>i. str_int (int i) @ ''.xml'') [0..<1] = [''0.xml'']"
    by code_simp
  have y: "nat (xml_count (xml zip1)) = 1" by code_simp
  from archive_members[OF h] have
    "\<exists>zf. fs w' name = Some zf \<and> namelist zf = [''0.xml''] \<and> length zf = 1"
    unfolding y x by blast
  with h n show ?thesis by blast
qed

section \<open>Claim C4: reading an archive back\<close>

text \<open>
  C4. The archive that \<^verbatim>\<open>Zip.create\<close> builds holds the documents of the records
  \<open>r0 .. rk-1\<close> that \<^verbatim>\<open>LXML.generate\<close> drew, and \<^verbatim>\<open>Zip.read\<close> of it returns a list of
  \<open>k\<close> dictionaries that is a permutation of the dictionaries of \<open>r0 .. rk-1\<close> (id, level
  in its string form, object names in order). The member names \<^verbatim>\<open>0.xml .. (k-1).xml\<close>
  are distinct and \<^verbatim>\<open>namelist\<close> follows the order of writing, so the list is even in the
  order of the build.
\<close>

theorem read_created_archive:
  assumes "Zip_create self prefix w = Inr (name, w')"
  shows "\<exists>rs. draw_records (xml self) (nat (xml_count (xml self))) (rng w) = Inr (rs, rng w')
     \<and> length rs = nat (xml_count (xml self))
     \<and> fs w' name = Some (write_members 0 (map (\<lambda>r. tostring (encode r)) rs) [])
     \<and> (\<exists>ds. Zip_read self (fs w') name = Inr ds
           \<and> length ds = length rs
           \<and> mset ds = mset (map record_dict rs)
           \<and> ds = map record_dict rs)"
proof -
  from Zip_create_Inr[OF assms] obtain docs where
    g: "LXML_generate (xml self) (rng w) = Inr (docs, rng w')"
    and f: "fs w' = (fs w)(name \<mapsto> write_members 0 docs [])"
    by blast
  from g obtain rs where
    d: "draw_records (xml self) (nat (xml_count (xml self))) (rng w) = Inr (rs, rng w')"
    and e: "docs = map (\<lambda>r. tostring (encode r)) rs"
    unfolding LXML_generate_draw by blast
  have l: "length rs = nat (xml_count (xml self))" by (rule draw_records_length[OF d])
  have s: "fs w' name = Some (write_members 0 (map (\<lambda>r. tostring (encode r)) rs) [])"
    using f e by simp
  have "Zip_read self (fs w') name = Inr (map record_dict rs)"
    using s by (rule Zip_read_created[of "fs w'" name rs self])
  with d l s show ?thesis by simp
qed

lemma Zip_create_read_zip1:
  "map_sum id (\<lambda>p. Zip_read zip1 (fs (snd p)) (fst p)) (Zip_create zip1 0 world0)
     = Inr (Inr [record_dict rec1])"
  by code_simp

theorem read_created_archive_witness:
  "\<exists>name w'. Zip_create zip1 0 world0 = Inr (name, w')
     \<and> (\<exists>rs. draw_records (xml zip1) (nat (xml_count (xml zip1))) (rng world0) = Inr (rs, rng w')
           \<and> length rs = nat (xml_count (xml zip1))
           \<and> fs w' name = Some (write_members 0 (map (\<lambda>r. tostring (encode r)) rs) [])
           \<and> (\<exists>ds. Zip_read zip1 (fs w') name = Inr ds
                 \<and> length ds = length rs
                 \<and> mset ds = mset (map record_dict rs)
                 \<and> ds = map record_dict rs))
     \<and> Zip_read zip1 (fs w') name = Inr [record_dict rec1]"
proof -
  obtain name w' where h: "Zip_create zip1 0 world0 = Inr (name, w')"
    and r: "Zip_read zip1 (fs w') name = Inr [record_dict rec1]"
    using Zip_create_read_zip1 by (cases "Zip_create zip1 0 world0") auto
  from read_created_archive[OF h] h r show ?thesis by blast
qed

section \<open>Claim C5: the number of rows\<close>

text \<open>
  C5, as stated, fails for \<open>m = 0\<close> batches: \<^verbatim>\<open>Pool.map\<close> returns an empty list and
  \<^verbatim>\<open>pandas.concat\<close> raises ValueError for it, so \<^verbatim>\<open>CSV.write\<close> produces no table.
\<close>

theorem write_empty_counterexample:
  "CSV_write sched_first sched_last_first [] = Inl ValueError"
  by (rule CSV_write_Nil)

text \<open>
  C5, amended. For every input of \<open>m \<ge> 1\<close> batches and every schedule of the workers,
  \<^verbatim>\<open>CSV.write\<close> produces a table of levels with one row per record (\<open>m * k\<close> rows
  when every batch has \<open>k\<close> records) and a table of objects with as many rows as the
  records have objects in total.
\<close>

theorem write_row_counts:
  assumes "data \<noteq> []"
  shows "\<exists>df1 df2. CSV_write sched1 sched2 data = Inr (df1, df2)
     \<and> length (rows df1) = sum_list (map length data)
     \<and> length (rows df2)
         = sum_list (map (\<lambda>batch. sum_list (map (\<lambda>r. length (dict_object_names r)) batch)) data)
     \<and> ((\<forall>batch\<in>set data. length batch = k) \<longrightarrow> length (rows df1) = length data * k)"
proof -
  let ?df1 = "\<lparr>columns = [''id'', ''level''],
             index = concat (map (\<lambda>batch. [0..<length batch]) data),
             rows = concat (map (map level_row) data)\<rparr>"
  let ?df2 = "\<lparr>columns = [''id'', ''object_name''],
             index = concat (map (\<lambda>batch. [0..<length (concat (map object_rows batch))]) data),
             rows = concat (map (\<lambda>batch. concat (map object_rows batch)) data)\<rparr>"
  have w: "CSV_write sched1 sched2 data = Inr (?df1, ?df2)"
    by (rule CSV_write_Inr[OF assms])
  have a: "length (rows ?df1) = sum_list (map length data)"
    by (simp add: length_concat comp_def)
  have b: "length (rows ?df2)
      = sum_list (map (\<lambda>batch. sum_list (map (\<lambda>r. length (dict_object_names r)) batch)) data)"
    by (simp add: length_concat comp_def length_object_rows)
  have c: "(\<forall>batch\<in>set data. length batch = k) \<longrightarrow> length (rows ?df1) = length data * k"
    unfolding a using sum_list_all_equal[of data length k] by blast
  from w a b c show ?thesis by blast
qed

theorem write_row_counts_witness:
  "data2 \<noteq> []
   \<and> (\<exists>df1 df2. CSV_write sched_first sched_last_first data2 = Inr (df1, df2)
         \<and> length (rows df1) = 2 \<and> length (rows df2) = 3
         \<and> length (rows df1) = length data2 * 1)"
proof -
  have n: "data2 \<noteq> []" by (simp add: data2_def)
  have a: "sum_list (map length data2) = 2" by code_simp
  have b: "sum_list (map (\<lambda>batch. sum_list (map (\<lambda>r. length (dict_object_names r)) batch)) data2) = 3"
    by code_simp
  have c: "\<forall>batch\<in>set data2. length batch = 1" by (simp add: data2_def)
  from write_row_counts[OF n, of sched_first sched_last_first 1] c
  obtain df1 df2 where "CSV_write sched_first sched_last_first data2 = Inr (df1, df2)"
    "length (rows df1) = sum_list (map length data2)"
    "length (rows df2)
      = sum_list (map (\<lambda>batch. sum_list (map (\<lambda>r. length (dict_object_names r)) batch)) data2)"
    "length (rows df1) = length data2 * 1"
    by blast
  with n a b show ?thesis by auto
qed

section \<open>Claim C6: the order of the rows\<close>

text \<open>
  C6. Whenever \<^verbatim>\<open>CSV.write\<close> produces its tables, and it does for every sequence of
  batches that is not empty, the rows of both are grouped by batch in the order the
  batches were given, then by record in the order of the batch, then, for the table of
  objects, by object in the order of the record. This holds for every schedule of the
  workers: the partial result \<open>i\<close> is that of batch \<open>i\<close>, whatever the order of completion.
\<close>

theorem write_row_order:
  "(CSV_write sched1 sched2 data = Inr (df1, df2) \<longrightarrow>
      rows df1 = concat (map (map (\<lambda>r. [dict_id r, dict_level r])) data)
      \<and> rows df2
          = concat (map (\<lambda>batch. concat (map (\<lambda>r. map (\<lambda>n. [dict_id r, n])
                (dict_object_names r)) batch)) data))
   \<and> (data \<noteq> [] \<longrightarrow> (\<exists>df1 df2. CSV_write sched1 sched2 data = Inr (df1, df2)))"
proof (cases "data = []")
  case True
  then show ?thesis by (simp add: CSV_write_Nil)
next
  case False
  have l: "level_row = (\<lambda>r. [dict_id r, dict_level r])"
    by (rule ext) (simp add: level_row_def)
  have o: "object_rows = (\<lambda>r. map (\<lambda>n. [dict_id r, n]) (dict_object_names r))"
    by (rule ext) (simp add: object_rows_def)
  from CSV_write_Inr[OF False, of sched1 sched2] show ?thesis
    unfolding l o by auto
qed

theorem write_row_order_witness:
  "data2 \<noteq> []
   \<and> (\<exists>df1 df2. CSV_write sched_first sched_last_first data2 = Inr (df1, df2)
         \<and> rows df1 = [[Some ''0e33'', Some ''45''], [Some ''80a5'', Some ''15'']]
         \<and> rows df2 = [[Some ''0e33'', Some ''MFV6''], [Some ''0e33'', Some ''n8Tp''],
                        [Some ''80a5'', Some ''osfs'']])"
proof -
  have n: "data2 \<noteq> []" by (simp add: data2_def)
  have a: "concat (map (map (\<lambda>r. [dict_id r, dict_level r])) data2)
      = [[Some ''0e33'', Some ''45''], [Some ''80a5'', Some ''15'']]"
    by code_simp
  have b: "concat (map (\<lambda>batch. concat (map (\<lambda>r. map (\<lambda>n. [dict_id r, n])
                (dict_object_names r)) batch)) data2)
      = [[Some ''0e33'', Some ''MFV6''], [Some ''0e33'', Some ''n8Tp''],
                        [Some ''80a5'', Some ''osfs'']]"
    by code_simp
  from write_row_order[of sched_first sched_last_first data2] n
  obtain df1 df2 where w: "CSV_write sched_first sched_last_first data2 = Inr (df1, df2)"
    by blast
  from write_row_order[of sched_first sched_last_first data2 df1 df2] w
  have "rows df1 = concat (map (map (\<lambda>r. [dict_id r, dict_level r])) data2)"
    "rows df2 = concat (map (\<lambda>batch. concat (map (\<lambda>r. map (\<lambda>n. [dict_id r, n])
                (dict_object_names r)) batch)) data2)"
    by blast+
  with n w a b show ?thesis by auto
qed

section \<open>Claim C7: the ranges of level and object count\<close>

text \<open>
  C7. Every generated record has its level in \<open>[1, level_max]\<close> and between 1 and
  \<open>objects_max\<close> objects: whenever \<^verbatim>\<open>LXML.generate\<close> returns its documents, they are
  the serialised trees of the records drawn, and each of those records is in range.
\<close>

theorem generated_record_bounds:
  assumes "LXML_generate self s = Inr (docs, s')"
  shows "\<exists>rs. draw_records self (nat (xml_count self)) s = Inr (rs, s')
           \<and> docs = map (\<lambda>r. tostring (encode r)) rs
           \<and> (\<forall>r\<in>set rs. 1 \<le> rec_level r \<and> rec_level r \<le> level_max self
                 \<and> 1 \<le> length (rec_objects r)
                 \<and> int (length (rec_objects r)) \<le> objects_max self)"
proof -
  from assms obtain rs where
    a: "draw_records self (nat (xml_count self)) s = Inr (rs, s')"
    and b: "docs = map (\<lambda>r. tostring (encode r)) rs"
    unfolding LXML_generate_draw by blast
  have "\<forall>r\<in>set rs. 1 \<le> rec_level r \<and> rec_level r \<le> level_max self
                 \<and> 1 \<le> length (rec_objects r)
                 \<and> int (length (rec_objects r)) \<le> objects_max self"
    using draw_records_Inr[where P = "\<lambda>r. 1 \<le> rec_level r \<and> rec_level r \<le> level_max self
                 \<and> 1 \<le> length (rec_objects r)
                 \<and> int (length (rec_objects r)) \<le> objects_max self", OF _ a]
      draw_record_Inr(1-4) by blast
  with a b show ?thesis by blast
qed

theorem generated_record_bounds_witness:
  "\<exists>docs s'. LXML_generate cfg1 tape0 = Inr (docs, s')
     \<and> docs = [tostring (encode rec1)]
     \<and> (\<exists>rs. draw_records cfg1 (nat (xml_count cfg1)) tape0 = Inr (rs, s')
           \<and> docs = map (\<lambda>r. tostring (encode r)) rs
           \<and> (\<forall>r\<in>set rs. 1 \<le> rec_level r \<and> rec_level r \<le> level_max cfg1
                 \<and> 1 \<le> length (rec_objects r)
                 \<and> int (length (rec_objects r)) \<le> objects_max cfg1))"
proof -
  obtain docs s' where h: "LXML_generate cfg1 tape0 = Inr (docs, s')"
    and d: "docs = [tostring (encode rec1)]"
    using LXML_generate_cfg1 by (cases "LXML_generate cfg1 tape0") auto
  note c = generated_record_bounds[OF h]
  show ?thesis
    apply (rule exI[of _ docs])
    apply (rule exI[of _ s'])
    using h d c apply (intro conjI)
      apply assumption
     apply assumption
    apply assumption
    done
qed

section \<open>Claim C8: the shape of the id and of the object names\<close>

text \<open>
  C8, as stated, fails for the object names: \<^verbatim>\<open>secrets.token_urlsafe(n)\<close> encodes \<open>n\<close>
  random bytes in base 64, so the name has \<open>\<lceil>4n/3\<rceil>\<close> characters and not \<open>n\<close>. With
  \<open>name_length = 3\<close> the names of the example have 4 characters.
\<close>

theorem object_name_length_counterexample:
  "map_sum id fst (LXML_generate cfg1 tape0) = Inr [tostring (encode rec1)]
   \<and> rec_objects rec1 = [''MFV6'', ''n8Tp'']
   \<and> int (length ''MFV6'') \<noteq> name_length cfg1"
proof -
  have "map_sum id fst (LXML_generate cfg1 tape0) = Inr [tostring (encode rec1)]"
    by code_simp
  then show ?thesis by (simp add: rec1_def cfg1_def)
qed

text \<open>
  C8, amended. Every generated record has an id of exactly \<open>2 * token_length\<close>
  hexadecimal digits, and every object name is a string over the URL-safe alphabet that
  encodes \<open>name_length\<close> random bytes: it has \<open>(4 * name_length + 2) div 3\<close> characters.
\<close>

theorem generated_record_shapes:
  assumes "LXML_generate self s = Inr (docs, s')"
  shows "\<exists>rs. draw_records self (nat (xml_count self)) s = Inr (rs, s')
           \<and> docs = map (\<lambda>r. tostring (encode r)) rs
           \<and> (\<forall>r\<in>set rs. int (length (rec_id r)) = 2 * token_length self
                 \<and> set (rec_id r) \<subseteq> set hex_alphabet
                 \<and> (\<forall>n\<in>set (rec_objects r).
                       int (length n) = (4 * name_length self + 2) div 3
                       \<and> set n \<subseteq> set urlsafe_alphabet))"
proof -
  from assms obtain rs where
    a: "draw_records self (nat (xml_count self)) s = Inr (rs, s')"
    and b: "docs = map (\<lambda>r. tostring (encode r)) rs"
    unfolding LXML_generate_draw by blast
  let ?P = "\<lambda>r. int (length (rec_id r)) = 2 * token_length self
                 \<and> set (rec_id r) \<subseteq> set hex_alphabet
                 \<and> (\<forall>n\<in>set (rec_objects r).
                       int (length n) = (4 * name_length self + 2) div 3
                       \<and> set n \<subseteq> set urlsafe_alphabet)"
  have "?P r" if "r \<in> set rs" for r
  proof -
    from draw_records_mem[OF a that] obtain s1 s2 where "draw_record self s1 = Inr (r, s2)"
      by blast
    from draw_record_Inr(5-7)[OF this] show ?thesis by blast
  qed
  then have "\<forall>r\<in>set rs. ?P r" by blast
  with a b show ?thesis by blast
qed

theorem generated_record_shapes_witness:
  "\<exists>docs s'. LXML_generate cfg1 tape0 = Inr (docs, s')
     \<and> docs = [tostring (encode rec1)]
     \<and> (\<exists>rs. draw_records cfg1 (nat (xml_count cfg1)) tape0 = Inr (rs, s')
           \<and> docs = map (\<lambda>r. tostring (encode r)) rs
           \<and> (\<forall>r\<in>set rs. int (length (rec_id r)) = 2 * token_length cfg1
                 \<and> set (rec_id r) \<subseteq> set hex_alphabet
                 \<and> (\<forall>n\<in>set (rec_objects r).
                       int (length n) = (4 * name_length cfg1 + 2) div 3
                       \<and> set n \<subseteq> set urlsafe_alphabet)))"
proof -
  obtain docs s' where h: "LXML_generate cfg1 tape0 = Inr (docs, s')"
    and d: "docs = [tostring (encode rec1)]"
    using LXML_generate_cfg1 by (cases "LXML_generate cfg1 tape0") auto
  note c = generated_record_shapes[OF h]
  show ?thesis
    apply (rule exI[of _ docs])
    apply (rule exI[of _ s'])
    using h d c apply (intro conjI)
      apply assumption
     apply assumption
    apply assumption
    done
qed

section \<open>Claim C9: the names that \<^verbatim>\<open>generate_files\<close> gathers\<close>

text \<open>
  C9. After \<^verbatim>\<open>Zip.generate_files(n)\<close>, for every schedule of the workers,
  \<^verbatim>\<open>generated_files\<close> has exactly \<open>n\<close> entries and its \<open>i\<close>-th entry is \<^verbatim>\<open>f"{i}.zip"\<close>,
  the name of the archive built from index \<open>i\<close>, which is in the file system; nothing
  else of the object changes. For a valid configuration the call returns.
\<close>

theorem generate_files_names:
  "(Zip_generate_files self n sched w = Inr (self', w') \<longrightarrow>
      generated_files self' = map (\<lambda>i. str_int (int i) @ ''.zip'') [0..<nat n]
      \<and> length (generated_files self') = nat n
      \<and> set (generated_files self') \<subseteq> dom (fs w')
      \<and> xml self' = xml self \<and> loaded_data self' = loaded_data self)
   \<and> (valid_config (xml self) \<longrightarrow>
        (\<exists>self' w'. Zip_generate_files self n sched w = Inr (self', w')))"
proof (intro conjI impI)
  assume v: "valid_config (xml self)"
  have "\<exists>ys s'. Pool_map (Zip_create self) (map int [0..<nat n]) sched w = Inr (ys, s')"
    by (rule Pool_map_total) (rule Zip_create_total[OF v])
  then show "\<exists>self' w'. Zip_generate_files self n sched w = Inr (self', w')"
    by (auto simp: Zip_generate_files_def)
next
  assume h: "Zip_generate_files self n sched w = Inr (self', w')"
  then obtain names where
    p: "Pool_map (Zip_create self) (map int [0..<nat n]) sched w = Inr (names, w')"
    and s: "self' = self\<lparr>generated_files := names\<rparr>"
    by (auto simp: Zip_generate_files_def split: sum.splits)
  have "names = map (\<lambda>prefix. str_int prefix @ ''.zip'') (map int [0..<nat n])"
    by (rule Pool_map_results[OF _ p]) (rule Zip_create_name)
  then have n: "names = map (\<lambda>i. str_int (int i) @ ''.zip'') [0..<nat n]"
    by (simp add: comp_def)
  from p obtain finished where
    r: "run_pool (Zip_create self) (enumerate 0 (map int [0..<nat n])) sched w = Inr (finished, w')"
    and f: "names = map snd (sort_key fst finished)"
    by (auto simp: Pool_map_def split: sum.splits)
  have d: "set names \<subseteq> dom (fs w')"
    using run_pool_create_dom[OF r] f by simp
  show "generated_files self' = map (\<lambda>i. str_int (int i) @ ''.zip'') [0..<nat n]"
    using s n by simp
  show "length (generated_files self') = nat n" using s n by simp
  show "set (generated_files self') \<subseteq> dom (fs w')" using s d by simp
  show "xml self' = xml self" using s by simp
  show "loaded_data self' = loaded_data self" using s by simp
qed

lemma generate_files_zip1:
  "map_sum id (\<lambda>p. generated_files (fst p)) (Zip_generate_files zip1 2 sched_last_first world0)
     = Inr [''0.zip'', ''1.zip'']"
  by code_simp

lemma valid_config_cfg1: "valid_config (xml zip1)"
  by code_simp

theorem generate_files_names_witness:
  "valid_config (xml zip1)
   \<and> (\<exists>self' w'. Zip_generate_files zip1 2 sched_last_first world0 = Inr (self', w')
         \<and> generated_files self' = [''0.zip'', ''1.zip'']
         \<and> length (generated_files self') = nat 2
         \<and> set (generated_files self') \<subseteq> dom (fs w'))"
proof -
  obtain self' w' where h: "Zip_generate_files zip1 2 sched_last_first world0 = Inr (self', w')"
    and g: "generated_files self' = [''0.zip'', ''1.zip'']"
    using generate_files_zip1
    by (cases "Zip_generate_files zip1 2 sched_last_first world0") auto
  from generate_files_names[of zip1 2 sched_last_first world0 self' w'] h
  have "length (generated_files self') = nat 2" "set (generated_files self') \<subseteq> dom (fs w')"
    by blast+
  with h g valid_config_cfg1 show ?thesis by blast
qed

section \<open>Claim C10: \<^verbatim>\<open>read_generated\<close> only appends\<close>

text \<open>
  C10. \<^verbatim>\<open>Zip.read_generated\<close> leaves \<^verbatim>\<open>generated_files\<close> (and \<^verbatim>\<open>xml\<close>) unchanged and
  only appends to \<^verbatim>\<open>loaded_data\<close>: after the call it is the previous list followed by
  the batches read from the first file names, one batch per name and in their order. The
  call returns exactly when \<^verbatim>\<open>Zip.read\<close> reads every name of \<^verbatim>\<open>generated_files\<close>, and
  then there is one batch for every name, and a second call appends the same batches
  again. Otherwise it raises the exception of the first name that cannot be read, and the
  batches of the names before that one stay appended.
\<close>

theorem read_generated_appends:
  assumes "Zip_read_generated self files = (self', err)"
  shows "generated_files self' = generated_files self \<and> xml self' = xml self
     \<and> (\<exists>batches. loaded_data self' = loaded_data self @ batches
           \<and> map (Zip_read self files) (take (length batches) (generated_files self))
               = map Inr batches
           \<and> (err = None \<longleftrightarrow> length batches = length (generated_files self))
           \<and> (err = None \<longleftrightarrow>
                (\<forall>name \<in> set (generated_files self). \<exists>batch. Zip_read self files name = Inr batch))
           \<and> (\<forall>e. err = Some e \<longrightarrow>
                length batches < length (generated_files self)
                \<and> Zip_read self files (generated_files self ! length batches) = Inl e)
           \<and> (err = None \<longrightarrow>
                length batches = length (generated_files self)
                \<and> Zip_read_generated self' files
                    = (self'\<lparr>loaded_data := loaded_data self @ batches @ batches\<rparr>, None)))"
proof -
  let ?names = "generated_files self"
  from assms have l: "read_generated_loop self files ?names = (self', err)"
    by (simp add: Zip_read_generated_def)
  from read_generated_loop_Inr[OF l] obtain batches where
    a: "generated_files self' = generated_files self" "xml self' = xml self"
    and b: "loaded_data self' = loaded_data self @ batches"
    and c: "map (Zip_read self files) (take (length batches) ?names) = map Inr batches"
    and d: "err = None \<longrightarrow> length batches = length ?names"
    and f: "\<forall>e. err = Some e \<longrightarrow> length batches < length ?names
              \<and> Zip_read self files (?names ! length batches) = Inl e"
    by blast
  have d': "err = None \<longleftrightarrow> length batches = length ?names"
    using d f by (cases err) auto
  have g: "err = None \<longleftrightarrow> (\<forall>name \<in> set ?names. \<exists>batch. Zip_read self files name = Inr batch)"
  proof
    assume "err = None"
    with d c have m: "map (Zip_read self files) ?names = map Inr batches" by simp
    show "\<forall>name \<in> set ?names. \<exists>batch. Zip_read self files name = Inr batch"
    proof
      fix name assume "name \<in> set ?names"
      then have "Zip_read self files name \<in> set (map (Zip_read self files) ?names)" by simp
      with m have "Zip_read self files name \<in> set (map Inr batches)" by simp
      then show "\<exists>batch. Zip_read self files name = Inr batch" by auto
    qed
  next
    assume r: "\<forall>name \<in> set ?names. \<exists>batch. Zip_read self files name = Inr batch"
    show "err = None"
    proof (cases err)
      case None
      then show ?thesis .
    next
      case (Some e)
      with f have "length batches < length ?names"
        and "Zip_read self files (?names ! length batches) = Inl e" by simp_all
      with r show ?thesis by (metis nth_mem sum.distinct(1))
    qed
  qed
  have e: "Zip_read_generated self' files
      = (self'\<lparr>loaded_data := loaded_data self @ batches @ batches\<rparr>, None)" if "err = None"
  proof -
    from d that c have "map (Zip_read self files) (generated_files self) = map Inr batches"
      by simp
    then have "map (Zip_read self' files) (generated_files self') = map Inr batches"
      using a(1) Zip_read_self[of self' files self] by simp
    from read_generated_loop_success[OF this] b show ?thesis
      by (simp add: Zip_read_generated_def)
  qed
  show ?thesis
    apply (intro conjI)
      apply (rule a(1))
     apply (rule a(2))
    apply (rule exI[of _ batches])
    using b c d d' g f e by blast
qed

lemma read_generated_zip3:
  "Zip_read_generated zip3 files2
     = (zip3\<lparr>loaded_data := [[], [record_dict rec1], [record_dict rec2, record_dict rec1]]\<rparr>, None)"
  by code_simp

lemma read_generated_zip4:
  "Zip_read_generated zip4 files2
     = (zip4\<lparr>loaded_data := [[], [record_dict rec1]]\<rparr>, Some FileNotFoundError)"
  by code_simp

theorem read_generated_appends_witness:
  "Zip_read_generated zip3 files2
     = (zip3\<lparr>loaded_data := [[], [record_dict rec1], [record_dict rec2, record_dict rec1]]\<rparr>, None)
   \<and> Zip_read_generated
        (zip3\<lparr>loaded_data := [[], [record_dict rec1], [record_dict rec2, record_dict rec1]]\<rparr>) files2
     = (zip3\<lparr>loaded_data := [[], [record_dict rec1], [record_dict rec2, record_dict rec1],
                                [record_dict rec1], [record_dict rec2, record_dict rec1]]\<rparr>, None)
   \<and> Zip_read_generated zip4 files2
     = (zip4\<lparr>loaded_data := [[], [record_dict rec1]]\<rparr>, Some FileNotFoundError)
   \<and> Zip_read zip4 files2 ''2.zip'' = Inl FileNotFoundError"
proof -
  let ?l = "[[], [record_dict rec1], [record_dict rec2, record_dict rec1]]"
  note h = read_generated_zip3
  from read_generated_appends[OF h] obtain batches where
    a: "loaded_data (zip3\<lparr>loaded_data := ?l\<rparr>) = loaded_data zip3 @ batches"
    and b: "Zip_read_generated (zip3\<lparr>loaded_data := ?l\<rparr>) files2
        = (zip3\<lparr>loaded_data := ?l, loaded_data := loaded_data zip3 @ batches @ batches\<rparr>, None)"
    by blast
  from a have "batches = [[record_dict rec1], [record_dict rec2, record_dict rec1]]"
    by (simp add: zip3_def)
  with b have x: "Zip_read_generated (zip3\<lparr>loaded_data := ?l\<rparr>) files2
     = (zip3\<lparr>loaded_data := [[], [record_dict rec1], [record_dict rec2, record_dict rec1],
                                [record_dict rec1], [record_dict rec2, record_dict rec1]]\<rparr>, None)"
    by (simp add: zip3_def)
  note k = read_generated_zip4
  from read_generated_appends[OF k] obtain bs where
    c: "loaded_data (zip4\<lparr>loaded_data := [[], [record_dict rec1]]\<rparr>) = loaded_data zip4 @ bs"
    and d: "Zip_read zip4 files2 (generated_files zip4 ! length bs) = Inl FileNotFoundError"
    by blast
  from c have "bs = [[record_dict rec1]]" by (simp add: zip4_def)
  with d have y: "Zip_read zip4 files2 ''2.zip'' = Inl FileNotFoundError"
    by (simp add: zip4_def)
  from h x k y show ?thesis by blast
qed

end
